theory Spec2Isabelle
  imports
    Main
    "HOL-Library.Multiset"
    "HOL-Library.AList"
    "HOL-Library.Char_ord"
    "HOL-Library.List_Lexorder"
    "HOL-Library.Product_Lexorder"
begin

section \<open>Cards\<close>

text \<open>
  The enumerations \<open>Suit\<close> and \<open>Rank\<close> of \<open>main.py\<close>, in their declaration order, with
  the string each member carries as its value.
\<close>

datatype suit = HEARTS | DIAMONDS | CLUBS | SPADES

datatype rank =
  ACE | KING | QUEEN | JACK | TEN | NINE | EIGHT | SEVEN | SIX | FIVE | FOUR | THREE | TWO

fun suit_value :: "suit \<Rightarrow> string" where
  "suit_value HEARTS = ''HEARTS''"
| "suit_value DIAMONDS = ''DIAMONDS''"
| "suit_value CLUBS = ''CLUBS''"
| "suit_value SPADES = ''SPADES''"

fun rank_value :: "rank \<Rightarrow> string" where
  "rank_value ACE = ''ACE''"
| "rank_value KING = ''KING''"
| "rank_value QUEEN = ''QUEEN''"
| "rank_value JACK = ''JACK''"
| "rank_value TEN = ''10''"
| "rank_value NINE = ''9''"
| "rank_value EIGHT = ''8''"
| "rank_value SEVEN = ''7''"
| "rank_value SIX = ''6''"
| "rank_value FIVE = ''5''"
| "rank_value FOUR = ''4''"
| "rank_value THREE = ''3''"
| "rank_value TWO = ''2''"

definition all_suits :: "suit list" where
  "all_suits = [HEARTS, DIAMONDS, CLUBS, SPADES]"

definition all_ranks :: "rank list" where
  "all_ranks = [ACE, KING, QUEEN, JACK, TEN, NINE, EIGHT, SEVEN, SIX, FIVE, FOUR, THREE, TWO]"

text \<open>The dataclass \<open>Card\<close>: two fields, equality on both.\<close>

datatype card = Card (suit: suit) (rank: rank)

text \<open>The property \<open>Card.value\<close>.\<close>

fun rank_values :: "rank \<Rightarrow> int" where
  "rank_values ACE = 14"
| "rank_values KING = 13"
| "rank_values QUEEN = 12"
| "rank_values JACK = 11"
| "rank_values TEN = 10"
| "rank_values NINE = 9"
| "rank_values EIGHT = 8"
| "rank_values SEVEN = 7"
| "rank_values SIX = 6"
| "rank_values FIVE = 5"
| "rank_values FOUR = 4"
| "rank_values THREE = 3"
| "rank_values TWO = 2"

definition card_value :: "card \<Rightarrow> int" where
  "card_value c = rank_values (rank c)"

text \<open>
  The sort key \<open>lambda c: (c.suit.value, -c.value)\<close>: a pair of a string and an integer,
  compared lexicographically; \<open>list.sort\<close> is stable, as \<open>sort_key\<close> is.
\<close>

definition card_key :: "card \<Rightarrow> string \<times> int" where
  "card_key c = (suit_value (suit c), - card_value c)"

definition sort_hand :: "card list \<Rightarrow> card list" where
  "sort_hand h = sort_key card_key h"

definition ace_of_spades :: card where
  "ace_of_spades = Card SPADES ACE"

section \<open>Exceptions and Python list helpers\<close>

datatype error = ValueError string | KeyError string | IndexError

definition ebind :: "error + 'a \<Rightarrow> ('a \<Rightarrow> error + 'b) \<Rightarrow> error + 'b" where
  "ebind m f = (case m of Inl e \<Rightarrow> Inl e | Inr x \<Rightarrow> f x)"

text \<open>\<open>list.index\<close>: the first position of the element, \<open>ValueError\<close> when absent.\<close>

fun index_of :: "'a list \<Rightarrow> 'a \<Rightarrow> nat option" where
  "index_of [] x = None"
| "index_of (y # ys) x = (if y = x then Some 0 else map_option Suc (index_of ys x))"

text \<open>
  The \<open>repr\<close> of a string that holds no quote, backslash or control character: the
  string between two apostrophes. It stands in the messages of the exceptions.
\<close>

definition quoted :: "string \<Rightarrow> string" where
  "quoted x = [CHR 0x27] @ x @ [CHR 0x27]"

definition list_index :: "string list \<Rightarrow> string \<Rightarrow> error + nat" where
  "list_index xs x =
     (case index_of xs x of
        None \<Rightarrow> Inl (ValueError (quoted x @ '' is not in list''))
      | Some i \<Rightarrow> Inr i)"

text \<open>\<open>list.insert(i, x)\<close> for a non-negative index: beyond the end it appends.\<close>

definition list_insert :: "nat \<Rightarrow> 'a \<Rightarrow> 'a list \<Rightarrow> 'a list" where
  "list_insert i x xs = take i xs @ x # drop i xs"

text \<open>
  \<open>max(xs, key=k)\<close>: \<open>ValueError\<close> on the empty list, otherwise the first element whose
  key is maximal (a later element replaces the best one only when its key is strictly
  larger).
\<close>

definition py_max_key :: "('a \<Rightarrow> int) \<Rightarrow> 'a list \<Rightarrow> error + 'a" where
  "py_max_key k xs =
     (case xs of
        [] \<Rightarrow> Inl (ValueError ''max() arg is an empty sequence'')
      | x # rest \<Rightarrow> Inr (foldl (\<lambda>best y. if k best < k y then y else best) x rest))"

text \<open>\<open>str(n)\<close> for a length.\<close>

definition digit_char :: "nat \<Rightarrow> char" where
  "digit_char d = char_of (48 + d)"

fun str_nat :: "nat \<Rightarrow> string" where
  "str_nat n = (if n < 10 then [digit_char n] else str_nat (n div 10) @ [digit_char (n mod 10)])"

declare str_nat.simps [simp del]

section \<open>The session\<close>

text \<open>
  \<open>players\<close> is a Python dictionary, which keeps its keys in insertion order: an
  association list, where \<open>AList.update\<close> replaces the value of a present key in place and
  appends an absent one, as assignment to \<open>d[k]\<close> does. \<open>current_player_idx\<close> is only
  ever assigned 0, a position in a list or a remainder, so it is a natural number.
  A function that raises returns the exception (\<open>Inl\<close>) in place of a result.
\<close>

type_synonym hands = "(string \<times> card list) list"

record game_session =
  game_id :: string
  players :: hands
  player_order :: "string list"
  active_players :: "string list"
  current_player_idx :: nat
  current_pile :: "(string \<times> card) list"
  current_suit :: "suit option"
  original_suit :: "suit option"
  game_started :: bool
  finished :: bool
  kazhutha :: "string option"
  winners :: "string list"
  host_name :: string
  discarded_cards :: "card list"
  round_in_progress :: bool
  last_action :: "string option"
  game_first_card_played :: bool
  resolved_pile :: "(string \<times> card) list"
  resolved_winner :: "string option"
  suit_was_broken :: bool
  taken_hand_cards :: "card list"
  taken_hand_from :: "string option"
  taken_hand_by :: "string option"
  original_players :: "string list"
  connected_players :: "string set"
  waiting_for_player :: "string option"

text \<open>\<open>self.players[name]\<close>: \<open>KeyError\<close> when the name is no key.\<close>

definition get_hand :: "hands \<Rightarrow> string \<Rightarrow> error + card list" where
  "get_hand ps k = (case map_of ps k of None \<Rightarrow> Inl (KeyError k) | Some h \<Rightarrow> Inr h)"

text \<open>\<open>GameSession.__init__\<close>.\<close>

definition new_session :: "string \<Rightarrow> string \<Rightarrow> game_session" where
  "new_session gid host =
     \<lparr> game_id = gid, players = [(host, [])], player_order = [host], active_players = [],
       current_player_idx = 0, current_pile = [], current_suit = None, original_suit = None,
       game_started = False, finished = False, kazhutha = None, winners = [],
       host_name = host, discarded_cards = [], round_in_progress = False,
       last_action = None, game_first_card_played = False, resolved_pile = [],
       resolved_winner = None, suit_was_broken = False, taken_hand_cards = [],
       taken_hand_from = None, taken_hand_by = None, original_players = [],
       connected_players = {}, waiting_for_player = None \<rparr>"

text \<open>\<open>add_player\<close>: the session afterwards and the returned flag.\<close>

definition add_player :: "game_session \<Rightarrow> string \<Rightarrow> game_session \<times> bool" where
  "add_player s player_name =
     (if player_name \<in> fst ` set (players s) \<or> game_started s then (s, False)
      else if length (players s) \<ge> 8 then (s, False)
      else (s\<lparr>players := AList.update player_name [] (players s),
               player_order := player_order s @ [player_name]\<rparr>, True))"

text \<open>
  The property \<open>current_player\<close>: \<open>player_order[0]\<close> raises \<open>IndexError\<close> on an empty
  seating order.
\<close>

definition current_player :: "game_session \<Rightarrow> error + string" where
  "current_player s =
     (if active_players s = [] then
        (case player_order s of [] \<Rightarrow> Inl IndexError | p # _ \<Rightarrow> Inr p)
      else Inr (active_players s ! (current_player_idx s mod length (active_players s))))"

text \<open>\<open>remove_player\<close>; \<open>list.remove\<close> raises \<open>ValueError\<close> on an absent element.\<close>

definition remove_player :: "game_session \<Rightarrow> string \<Rightarrow> error + game_session" where
  "remove_player s player_name =
     (if player_name \<notin> fst ` set (players s) then Inr s
      else if \<not> game_started s then
        (if player_name \<in> set (player_order s)
         then Inr (s\<lparr>players := AList.delete player_name (players s),
                     player_order := remove1 player_name (player_order s)\<rparr>)
         else Inl (ValueError ''list.remove(x): x not in list''))
      else
        (let s1 = s\<lparr>connected_players := connected_players s - {player_name}\<rparr> in
         ebind (current_player s1) (\<lambda>cp.
           if player_name = cp \<and> player_name \<in> set (active_players s1)
           then Inr (s1\<lparr>waiting_for_player := Some player_name\<rparr>)
           else Inr s1)))"

text \<open>\<open>can_rejoin\<close>.\<close>

definition can_rejoin :: "game_session \<Rightarrow> string \<Rightarrow> bool \<times> string" where
  "can_rejoin s player_name =
     (if \<not> game_started s then (False, ''Game not started - use normal join'')
      else if finished s then (False, ''Game is finished'')
      else if player_name \<notin> set (original_players s)
        then (False, ''You were not part of this game'')
      else if player_name \<in> connected_players s
        then (False, ''Player with this name is already connected'')
      else (True, ''OK''))"

text \<open>
  The loop of \<open>player_reconnected\<close> that finds the insertion position: it walks the
  active players with their positions and stops at the first one seated after the
  reconnecting player.
\<close>

fun insert_position :: "string list \<Rightarrow> nat \<Rightarrow> nat \<Rightarrow> nat \<Rightarrow> string list \<Rightarrow> error + nat" where
  "insert_position po original_idx insert_idx i [] = Inr insert_idx"
| "insert_position po original_idx insert_idx i (p # ps) =
     ebind (list_index po p) (\<lambda>j.
       if j > original_idx then Inr insert_idx
       else insert_position po original_idx (i + 1) (i + 1) ps)"

definition player_reconnected :: "game_session \<Rightarrow> string \<Rightarrow> error + game_session" where
  "player_reconnected s player_name =
     (let s1 = s\<lparr>connected_players := insert player_name (connected_players s)\<rparr> in
      ebind
        (case map_of (players s1) player_name of
           None \<Rightarrow> Inr s1
         | Some h \<Rightarrow>
             if length h > 0 \<and> player_name \<notin> set (active_players s1) then
               ebind (list_index (player_order s1) player_name) (\<lambda>original_idx.
               ebind (insert_position (player_order s1) original_idx 0 0 (active_players s1))
                 (\<lambda>insert_idx.
                   Inr (s1\<lparr>active_players :=
                             list_insert insert_idx player_name (active_players s1)\<rparr>)))
             else Inr s1)
        (\<lambda>s2.
          if waiting_for_player s2 = Some player_name then
            ebind (list_index (active_players s2) player_name) (\<lambda>i.
              Inr (s2\<lparr>current_player_idx := i, waiting_for_player := None\<rparr>))
          else Inr s2))"

text \<open>\<open>reset_game\<close>.\<close>

definition reset_game :: "game_session \<Rightarrow> game_session" where
  "reset_game s =
     s\<lparr>players := map (\<lambda>(name, h). (name, [])) (players s),
       active_players := [], current_player_idx := 0, current_pile := [],
       current_suit := None, original_suit := None, game_started := False,
       finished := False, kazhutha := None, winners := [], discarded_cards := [],
       round_in_progress := False, last_action := None, game_first_card_played := False,
       resolved_pile := [], resolved_winner := None, suit_was_broken := False,
       taken_hand_cards := [], taken_hand_from := None, taken_hand_by := None,
       original_players := [], waiting_for_player := None\<rparr>"

section \<open>Starting a game\<close>

text \<open>
  \<open>_create_deck\<close> builds the deck suit by suit, rank by rank, and then shuffles it seven
  times with the process-wide random generator. The built deck is \<open>ordered_deck\<close>; the
  outcome of the shuffles is an argument of \<open>start_game\<close>, and \<open>is_shuffle\<close> says
  that it is a rearrangement of the built deck.
\<close>

definition ordered_deck :: "card list" where
  "ordered_deck = concat (map (\<lambda>s. map (\<lambda>r. Card s r) all_ranks) all_suits)"

definition is_shuffle :: "card list \<Rightarrow> bool" where
  "is_shuffle deck = (mset deck = mset ordered_deck)"

text \<open>
  The dealing loop: card number \<open>i\<close> is appended to the hand of
  \<open>player_names[i % len(player_names)]\<close>.
\<close>

definition hand_append :: "hands \<Rightarrow> string \<Rightarrow> card \<Rightarrow> error + hands" where
  "hand_append ps k c = ebind (get_hand ps k) (\<lambda>h. Inr (AList.update k (h @ [c]) ps))"

fun deal :: "string list \<Rightarrow> nat \<Rightarrow> card list \<Rightarrow> hands \<Rightarrow> error + hands" where
  "deal player_names i [] ps = Inr ps"
| "deal player_names i (c # cs) ps =
     ebind (hand_append ps (player_names ! (i mod length player_names)) c)
       (deal player_names (i + 1) cs)"

text \<open>
  The search for the holder of the Ace of Spades along \<open>player_order\<close>: the position of
  the first holder, or nothing when the loop ends without a \<open>break\<close>.
\<close>

fun find_ace :: "hands \<Rightarrow> nat \<Rightarrow> string list \<Rightarrow> error + nat option" where
  "find_ace ps i [] = Inr None"
| "find_ace ps i (player_name # rest) =
     ebind (get_hand ps player_name) (\<lambda>h.
       if ace_of_spades \<in> set h then Inr (Some i) else find_ace ps (i + 1) rest)"

text \<open>The loop that sorts every hand.\<close>

definition sort_all :: "hands \<Rightarrow> hands" where
  "sort_all ps = map (\<lambda>(name, h). (name, sort_hand h)) ps"

definition start_game :: "game_session \<Rightarrow> card list \<Rightarrow> error + game_session" where
  "start_game s deck =
     (if length (players s) < 2 then Inl (ValueError ''Need at least 2 players'')
      else
        ebind (deal (map fst (players s)) 0 deck (players s)) (\<lambda>dealt.
        let s1 = s\<lparr>players := sort_all dealt, active_players := player_order s\<rparr>
        in ebind (find_ace (players s1) 0 (player_order s1)) (\<lambda>found.
             let s2 = (case found of None \<Rightarrow> s1 | Some i \<Rightarrow> s1\<lparr>current_player_idx := i\<rparr>)
             in Inr (s2\<lparr>game_started := True, game_first_card_played := False,
                        original_players := player_order s2,
                        connected_players := set (player_order s2)\<rparr>))))"

section \<open>Winners and the end of the game\<close>

text \<open>
  \<open>_check_for_winners\<close> walks a copy of the active players; a player with an empty hand
  who is not a winner yet is appended to the winners and removed from the active
  players (the element is present whenever \<open>remove\<close> is reached, so it cannot raise).
\<close>

fun check_for_winners_loop :: "string list \<Rightarrow> game_session \<Rightarrow> error + game_session" where
  "check_for_winners_loop [] s = Inr s"
| "check_for_winners_loop (player_name # rest) s =
     ebind (get_hand (players s) player_name) (\<lambda>h.
       if length h = 0 \<and> player_name \<notin> set (winners s)
       then check_for_winners_loop rest
              (s\<lparr>winners := winners s @ [player_name],
                 active_players := remove1 player_name (active_players s)\<rparr>)
       else check_for_winners_loop rest s)"

definition check_for_winners :: "game_session \<Rightarrow> error + game_session" where
  "check_for_winners s = check_for_winners_loop (active_players s) s"

text \<open>The list comprehension of \<open>_check_game_over\<close>.\<close>

fun players_with_cards :: "hands \<Rightarrow> string list \<Rightarrow> error + string list" where
  "players_with_cards ps [] = Inr []"
| "players_with_cards ps (p # rest) =
     ebind (get_hand ps p) (\<lambda>h.
     ebind (players_with_cards ps rest) (\<lambda>r.
       Inr (if length h > 0 then p # r else r)))"

definition check_game_over :: "game_session \<Rightarrow> error + game_session" where
  "check_game_over s =
     ebind (players_with_cards (players s) (active_players s)) (\<lambda>pwc.
       if length pwc = 1 then
         Inr (s\<lparr>finished := True, kazhutha := Some (hd pwc),
                 last_action := Some (hd pwc @ '' is the Kazhutha!'')\<rparr>)
       else if length pwc = 0 then Inr (s\<lparr>finished := True\<rparr>)
       else Inr s)"

section \<open>Taking the hand of the player on the left\<close>

definition get_player_on_left :: "game_session \<Rightarrow> string \<Rightarrow> string option" where
  "get_player_on_left s player_name =
     (case index_of (active_players s) player_name of
        None \<Rightarrow> None
      | Some idx \<Rightarrow>
          (let next_idx = (idx + 1) mod length (active_players s);
               left_player = active_players s ! next_idx
           in if left_player = player_name then None else Some left_player))"

text \<open>
  \<open>take_hand_from_left\<close> returns the triple (success, message, taken_from_player); the
  model returns the session with it. The test \<open>not left_player\<close> also rejects the empty
  name.
\<close>

definition take_hand_transfer ::
  "game_session \<Rightarrow> string \<Rightarrow> string \<Rightarrow> card list \<Rightarrow> error + game_session" where
  "take_hand_transfer s player_name left_player taken_cards =
     ebind (get_hand (players s) player_name) (\<lambda>own_hand.
       let s1 = s\<lparr>players := AList.update player_name (own_hand @ taken_cards) (players s)\<rparr>;
           s2 = s1\<lparr>players := AList.update left_player [] (players s1)\<rparr>;
           s3 = s2\<lparr>taken_hand_cards := taken_cards, taken_hand_from := Some left_player,
                   taken_hand_by := Some player_name\<rparr>
       in ebind (get_hand (players s3) player_name) (\<lambda>combined.
            let s4 = s3\<lparr>players := AList.update player_name (sort_hand combined) (players s3)\<rparr>
            in Inr (s4\<lparr>winners := winners s4 @ [left_player],
                       active_players := remove1 left_player (active_players s4)\<rparr>)))"

definition take_hand_finish ::
  "game_session \<Rightarrow> string \<Rightarrow> string \<Rightarrow> error + game_session" where
  "take_hand_finish s player_name left_player =
     ebind (check_game_over s) (\<lambda>s1.
     ebind (if player_name \<in> set (active_players s1)
            then ebind (list_index (active_players s1) player_name)
                   (\<lambda>i. Inr (s1\<lparr>current_player_idx := i\<rparr>))
            else Inr s1) (\<lambda>s2.
       Inr (s2\<lparr>resolved_pile := [], resolved_winner := None,
               last_action :=
                 Some (player_name @ '' took '' @ left_player @ [CHR 0x27] @ ''s hand!'')\<rparr>)))"

definition take_hand_from_left ::
  "game_session \<Rightarrow> string \<Rightarrow> error + (game_session \<times> bool \<times> string \<times> string option)" where
  "take_hand_from_left s player_name =
     (if \<not> game_started s \<or> finished s then Inr (s, False, ''Game not in progress'', None)
      else if round_in_progress s \<and> length (current_pile s) > 0
        then Inr (s, False, ''Cannot take hand during a round'', None)
      else if player_name \<notin> set (active_players s)
        then Inr (s, False, ''You are not an active player'', None)
      else ebind (current_player s) (\<lambda>cp.
        if player_name \<noteq> cp then Inr (s, False, ''You can only take hand on your turn'', None)
        else
          (case get_player_on_left s player_name of
             None \<Rightarrow> Inr (s, False, ''No player to take from'', None)
           | Some left_player \<Rightarrow>
               if left_player = [] then Inr (s, False, ''No player to take from'', None)
               else
                 ebind (get_hand (players s) left_player) (\<lambda>left_hand.
                   if length left_hand = 0
                   then Inr (s, False, ''That player has no cards'', None)
                   else
                     ebind (take_hand_transfer s player_name left_player left_hand) (\<lambda>s1.
                     ebind (take_hand_finish s1 player_name left_player) (\<lambda>s2.
                       Inr (s2, True,
                            ''Took '' @ str_nat (length left_hand) @ '' cards from ''
                              @ left_player,
                            Some left_player)))))))"

section \<open>Playing a card\<close>

text \<open>
  The request carries the card as a dictionary, here with strings as values;
  \<open>Suit(...)\<close> and \<open>Rank(...)\<close> look a member up by its value and raise \<open>ValueError\<close>
  when there is none, and a missing key raises \<open>KeyError\<close>.
\<close>

definition suit_of_value :: "string \<Rightarrow> error + suit" where
  "suit_of_value v =
     (case find (\<lambda>s. suit_value s = v) all_suits of
        None \<Rightarrow> Inl (ValueError (quoted v @ '' is not a valid Suit''))
      | Some s \<Rightarrow> Inr s)"

definition rank_of_value :: "string \<Rightarrow> error + rank" where
  "rank_of_value v =
     (case find (\<lambda>r. rank_value r = v) all_ranks of
        None \<Rightarrow> Inl (ValueError (quoted v @ '' is not a valid Rank''))
      | Some r \<Rightarrow> Inr r)"

definition dict_get :: "(string \<rightharpoonup> string) \<Rightarrow> string \<Rightarrow> error + string" where
  "dict_get d k = (case d k of None \<Rightarrow> Inl (KeyError k) | Some v \<Rightarrow> Inr v)"

definition card_of_dict :: "(string \<rightharpoonup> string) \<Rightarrow> error + card" where
  "card_of_dict card_dict =
     ebind (dict_get card_dict ''suit'') (\<lambda>sv.
     ebind (suit_of_value sv) (\<lambda>s.
     ebind (dict_get card_dict ''rank'') (\<lambda>rv.
     ebind (rank_of_value rv) (\<lambda>r.
       Inr (Card s r)))))"

definition card_to_dict :: "card \<Rightarrow> (string \<rightharpoonup> string)" where
  "card_to_dict c = [''suit'' \<mapsto> suit_value (suit c), ''rank'' \<mapsto> rank_value (rank c)]"

text \<open>\<open>_advance_to_next_active_player\<close>.\<close>

definition advance_to_next_active_player :: "game_session \<Rightarrow> error + game_session" where
  "advance_to_next_active_player s =
     (if active_players s = [] then Inr s
      else ebind (current_player s) (\<lambda>cp.
        if cp \<in> set (active_players s) then
          ebind (list_index (active_players s) cp) (\<lambda>current_idx.
            Inr (s\<lparr>current_player_idx := (current_idx + 1) mod length (active_players s)\<rparr>))
        else Inr (s\<lparr>current_player_idx := 0\<rparr>)))"

text \<open>
  The end of \<open>_resolve_round\<close>: the winner of the round leads when still active;
  otherwise the seats after the winner's are tried clockwise, \<open>i\<close> from 1 to
  \<open>len(player_order) - 1\<close>, and the first active player found leads.
\<close>

fun next_clockwise :: "game_session \<Rightarrow> nat \<Rightarrow> nat list \<Rightarrow> error + game_session" where
  "next_clockwise s winner_original_idx [] = Inr s"
| "next_clockwise s winner_original_idx (i # rest) =
     (let next_idx = (winner_original_idx + i) mod length (player_order s);
          next_player = player_order s ! next_idx
      in if next_player \<in> set (active_players s) then
           ebind (list_index (active_players s) next_player) (\<lambda>j.
             Inr (s\<lparr>current_player_idx := j\<rparr>))
         else next_clockwise s winner_original_idx rest)"

definition set_next_leader :: "game_session \<Rightarrow> string \<Rightarrow> error + game_session" where
  "set_next_leader s winning_player =
     (if winning_player \<in> set (active_players s) then
        ebind (list_index (active_players s) winning_player) (\<lambda>j.
          Inr (s\<lparr>current_player_idx := j\<rparr>))
      else
        ebind (list_index (player_order s) winning_player) (\<lambda>winner_original_idx.
          next_clockwise s winner_original_idx [1 ..< length (player_order s)]))"

text \<open>
  \<open>_resolve_round\<close>. In the branch of a broken suit the loop appends the pile's cards
  one by one to the winner's hand, which is then sorted.
\<close>

definition collect_pile :: "game_session \<Rightarrow> string \<Rightarrow> bool \<Rightarrow> error + game_session" where
  "collect_pile s winning_player suit_broken =
     (if suit_broken then
        ebind (get_hand (players s) winning_player) (\<lambda>h.
          Inr (s\<lparr>players :=
                   AList.update winning_player
                     (sort_hand (h @ map snd (current_pile s))) (players s),
                 last_action := Some (winning_player @ '' picks up the pile!'')\<rparr>))
      else
        Inr (s\<lparr>discarded_cards := discarded_cards s @ map snd (current_pile s),
               last_action :=
                 Some (''Cards discarded - '' @ winning_player @ '' leads next!'')\<rparr>))"

definition resolve_round :: "game_session \<Rightarrow> bool \<Rightarrow> error + game_session" where
  "resolve_round s suit_broken =
     (if current_pile s = [] then Inr s
      else
        (let original_suit_cards =
               filter (\<lambda>(pname, pcard). Some (suit pcard) = original_suit s) (current_pile s)
         in ebind (py_max_key (\<lambda>x. card_value (snd x)) original_suit_cards) (\<lambda>winning_play.
              let winning_player = fst winning_play;
                  s1 = s\<lparr>resolved_pile := current_pile s,
                         resolved_winner := Some winning_player,
                         suit_was_broken := suit_broken\<rparr>
              in ebind (collect_pile s1 winning_player suit_broken) (\<lambda>s2.
                   let s3 = s2\<lparr>current_pile := [], current_suit := None,
                               original_suit := None, round_in_progress := False\<rparr>
                   in ebind (check_for_winners s3) (\<lambda>s4.
                      ebind (set_next_leader s4 winning_player) check_game_over)))))"

text \<open>
  \<open>play_card\<close> returns the pair (success, error_message); the model returns the session
  with it. A new round is opened before the suit-following test, so the session
  returned with that failure is the one after \<open>open_round\<close>.
\<close>

definition open_round :: "game_session \<Rightarrow> card \<Rightarrow> game_session" where
  "open_round s pcard =
     (if current_pile s = [] then
        s\<lparr>original_suit := Some (suit pcard), current_suit := Some (suit pcard),
          round_in_progress := True, resolved_pile := [], resolved_winner := None,
          taken_hand_cards := [], taken_hand_from := None, taken_hand_by := None\<rparr>
      else s)"

definition put_on_pile :: "game_session \<Rightarrow> string \<Rightarrow> card list \<Rightarrow> card \<Rightarrow> game_session" where
  "put_on_pile s player_name player_hand pcard =
     s\<lparr>players := AList.update player_name (remove1 pcard player_hand) (players s),
       current_pile := current_pile s @ [(player_name, pcard)],
       last_action :=
         Some (player_name @ '' played '' @ rank_value (rank pcard) @ '' of ''
               @ suit_value (suit pcard))\<rparr>"

definition finish_play :: "game_session \<Rightarrow> card \<Rightarrow> error + game_session" where
  "finish_play s pcard =
     (if Some (suit pcard) \<noteq> original_suit s then resolve_round s True
      else
        (let players_who_played = remdups (map fst (current_pile s))
         in if length players_who_played = length (active_players s)
            then resolve_round s False
            else advance_to_next_active_player s))"

definition commit_play ::
  "game_session \<Rightarrow> string \<Rightarrow> card list \<Rightarrow> card
     \<Rightarrow> error + (game_session \<times> bool \<times> string option)" where
  "commit_play s player_name player_hand pcard =
     ebind (finish_play (put_on_pile s player_name player_hand pcard) pcard)
       (\<lambda>s'. Inr (s', True, None))"

definition play_card ::
  "game_session \<Rightarrow> string \<Rightarrow> (string \<rightharpoonup> string)
     \<Rightarrow> error + (game_session \<times> bool \<times> string option)" where
  "play_card s player_name card_dict =
     (if \<not> game_started s \<or> finished s then Inr (s, False, Some ''Game not in progress'')
      else ebind (current_player s) (\<lambda>cp.
        if player_name \<noteq> cp then Inr (s, False, Some ''Not your turn'')
        else if player_name \<notin> set (active_players s)
          then Inr (s, False, Some ''You are not an active player'')
        else
          ebind (card_of_dict card_dict) (\<lambda>pcard.
          ebind (get_hand (players s) player_name) (\<lambda>player_hand.
            if pcard \<notin> set player_hand then Inr (s, False, Some ''Card not in your hand'')
            else if \<not> game_first_card_played s \<and> (suit pcard \<noteq> SPADES \<or> rank pcard \<noteq> ACE)
              then Inr (s, False, Some ''First card must be Ace of Spades'')
            else
              (let s1 = (if \<not> game_first_card_played s
                         then s\<lparr>game_first_card_played := True\<rparr> else s);
                   s2 = open_round s1 pcard
               in case current_suit s2 of
                    None \<Rightarrow> commit_play s2 player_name player_hand pcard
                  | Some cs \<Rightarrow>
                      if (\<exists>c \<in> set player_hand. suit c = cs) \<and> suit pcard \<noteq> cs
                      then Inr (s2, False, Some (''You must play a '' @ suit_value cs))
                      else commit_play s2 player_name player_hand pcard)))))"

section \<open>Properties of a session\<close>

text \<open>The cards of all hands, and the hand of one player.\<close>

definition all_hands :: "game_session \<Rightarrow> card list" where
  "all_hands s = concat (map snd (players s))"

definition hand_of :: "game_session \<Rightarrow> string \<Rightarrow> card list" where
  "hand_of s p = (case map_of (players s) p of None \<Rightarrow> [] | Some h \<Rightarrow> h)"

text \<open>
  Conservation of cards: the hands, the discarded cards and the pile together are one
  deck.
\<close>

definition conserved :: "game_session \<Rightarrow> bool" where
  "conserved s =
     (mset (all_hands s) + mset (discarded_cards s) + mset (map snd (current_pile s))
        = mset ordered_deck)"

text \<open>
  What the dictionary and the seating order satisfy in every session: the keys of
  \<open>players\<close> are distinct, and \<open>player_order\<close> lists them in insertion order.
\<close>

definition seated :: "game_session \<Rightarrow> bool" where
  "seated s = (distinct (map fst (players s)) \<and> player_order s = map fst (players s))"

text \<open>
  The lobby phase, as \<open>__init__\<close> and \<open>reset_game\<close> leave it and \<open>add_player\<close> and
  \<open>remove_player\<close> keep it: no game started, every hand empty, nothing discarded, no
  pile, no winner.
\<close>

definition lobby :: "game_session \<Rightarrow> bool" where
  "lobby s =
     (seated s \<and> \<not> game_started s \<and> list_all (\<lambda>(name, h). h = []) (players s)
      \<and> discarded_cards s = [] \<and> current_pile s = [] \<and> winners s = [])"

section \<open>A two-player scenario\<close>

text \<open>
  A lobby of the host \<open>A\<close> and a second player \<open>B\<close>, and an outcome of the shuffle
  that deals \<open>A\<close> the spades and the clubs and \<open>B\<close> the hearts and the diamonds.
\<close>

definition lobby_AB :: game_session where
  "lobby_AB = fst (add_player (new_session ''GAME01'' ''A'') ''B'')"

definition interleave :: "'a list \<Rightarrow> 'a list \<Rightarrow> 'a list" where
  "interleave xs ys = concat (map (\<lambda>(x, y). [x, y]) (zip xs ys))"

definition deck_AB :: "card list" where
  "deck_AB =
     interleave (map (Card SPADES) all_ranks @ map (Card CLUBS) all_ranks)
                (map (Card HEARTS) all_ranks @ map (Card DIAMONDS) all_ranks)"

definition started_AB :: game_session where
  "started_AB =
     lobby_AB\<lparr>players :=
                [(''A'',
                  [Card CLUBS ACE, Card CLUBS KING, Card CLUBS QUEEN, Card CLUBS JACK,
                   Card CLUBS TEN, Card CLUBS NINE, Card CLUBS EIGHT, Card CLUBS SEVEN,
                   Card CLUBS SIX, Card CLUBS FIVE, Card CLUBS FOUR, Card CLUBS THREE,
                   Card CLUBS TWO, Card SPADES ACE, Card SPADES KING, Card SPADES QUEEN,
                   Card SPADES JACK, Card SPADES TEN, Card SPADES NINE,
                   Card SPADES EIGHT, Card SPADES SEVEN, Card SPADES SIX,
                   Card SPADES FIVE, Card SPADES FOUR, Card SPADES THREE, Card SPADES TWO]),
                 (''B'',
                  [Card DIAMONDS ACE, Card DIAMONDS KING, Card DIAMONDS QUEEN,
                   Card DIAMONDS JACK, Card DIAMONDS TEN, Card DIAMONDS NINE,
                   Card DIAMONDS EIGHT, Card DIAMONDS SEVEN, Card DIAMONDS SIX,
                   Card DIAMONDS FIVE, Card DIAMONDS FOUR, Card DIAMONDS THREE,
                   Card DIAMONDS TWO, Card HEARTS ACE, Card HEARTS KING,
                   Card HEARTS QUEEN, Card HEARTS JACK, Card HEARTS TEN,
                   Card HEARTS NINE, Card HEARTS EIGHT, Card HEARTS SEVEN,
                   Card HEARTS SIX, Card HEARTS FIVE, Card HEARTS FOUR,
                   Card HEARTS THREE, Card HEARTS TWO])],
              active_players := [''A'', ''B''], current_player_idx := 0,
              game_started := True, game_first_card_played := False,
              original_players := [''A'', ''B''], connected_players := {''A'', ''B''}\<rparr>"

text \<open>The same game after \<open>A\<close> has led the Ace of Spades.\<close>

definition after_ace_AB :: game_session where
  "after_ace_AB =
     started_AB\<lparr>players :=
                  [(''A'',
                    [Card CLUBS ACE, Card CLUBS KING, Card CLUBS QUEEN, Card CLUBS JACK,
                     Card CLUBS TEN, Card CLUBS NINE, Card CLUBS EIGHT, Card CLUBS SEVEN,
                     Card CLUBS SIX, Card CLUBS FIVE, Card CLUBS FOUR, Card CLUBS THREE,
                     Card CLUBS TWO, Card SPADES KING, Card SPADES QUEEN,
                     Card SPADES JACK, Card SPADES TEN, Card SPADES NINE,
                     Card SPADES EIGHT, Card SPADES SEVEN, Card SPADES SIX,
                     Card SPADES FIVE, Card SPADES FOUR, Card SPADES THREE, Card SPADES TWO]),
                   (''B'', hand_of started_AB ''B'')],
                current_player_idx := 1, current_pile := [(''A'', Card SPADES ACE)],
                current_suit := Some SPADES, original_suit := Some SPADES,
                round_in_progress := True, last_action := Some ''A played ACE of SPADES'',
                game_first_card_played := True\<rparr>"

text \<open>And after \<open>B\<close>, who holds no spade, has answered with the Two of Hearts.\<close>

definition after_two_AB :: game_session where
  "after_two_AB =
     after_ace_AB\<lparr>players :=
                    [(''A'',
                      [Card CLUBS ACE, Card CLUBS KING, Card CLUBS QUEEN, Card CLUBS JACK,
                       Card CLUBS TEN, Card CLUBS NINE, Card CLUBS EIGHT, Card CLUBS SEVEN,
                       Card CLUBS SIX, Card CLUBS FIVE, Card CLUBS FOUR, Card CLUBS THREE,
                       Card CLUBS TWO, Card HEARTS TWO, Card SPADES ACE, Card SPADES KING,
                       Card SPADES QUEEN, Card SPADES JACK, Card SPADES TEN,
                       Card SPADES NINE, Card SPADES EIGHT, Card SPADES SEVEN,
                       Card SPADES SIX, Card SPADES FIVE, Card SPADES FOUR,
                       Card SPADES THREE, Card SPADES TWO]),
                     (''B'',
                      [Card DIAMONDS ACE, Card DIAMONDS KING, Card DIAMONDS QUEEN,
                       Card DIAMONDS JACK, Card DIAMONDS TEN, Card DIAMONDS NINE,
                       Card DIAMONDS EIGHT, Card DIAMONDS SEVEN, Card DIAMONDS SIX,
                       Card DIAMONDS FIVE, Card DIAMONDS FOUR, Card DIAMONDS THREE,
                       Card DIAMONDS TWO, Card HEARTS ACE, Card HEARTS KING,
                       Card HEARTS QUEEN, Card HEARTS JACK, Card HEARTS TEN,
                       Card HEARTS NINE, Card HEARTS EIGHT, Card HEARTS SEVEN,
                       Card HEARTS SIX, Card HEARTS FIVE, Card HEARTS FOUR, Card HEARTS THREE])],
                  current_player_idx := 0, current_pile := [],
                  current_suit := None, original_suit := None,
                  round_in_progress := False, last_action := Some ''A picks up the pile!'',
                  resolved_pile := [(''A'', Card SPADES ACE), (''B'', Card HEARTS TWO)],
                  resolved_winner := Some ''A'', suit_was_broken := True\<rparr>"

text \<open>
  The started game after \<open>A\<close>, instead of leading, has taken the hand of \<open>B\<close>.
\<close>

definition taken_AB :: game_session where
  "taken_AB =
     started_AB\<lparr>players :=
                  [(''A'',
                    [Card CLUBS ACE, Card CLUBS KING, Card CLUBS QUEEN, Card CLUBS JACK,
                     Card CLUBS TEN, Card CLUBS NINE, Card CLUBS EIGHT, Card CLUBS SEVEN,
                     Card CLUBS SIX, Card CLUBS FIVE, Card CLUBS FOUR, Card CLUBS THREE,
                     Card CLUBS TWO, Card DIAMONDS ACE, Card DIAMONDS KING,
                     Card DIAMONDS QUEEN, Card DIAMONDS JACK, Card DIAMONDS TEN,
                     Card DIAMONDS NINE, Card DIAMONDS EIGHT, Card DIAMONDS SEVEN,
                     Card DIAMONDS SIX, Card DIAMONDS FIVE, Card DIAMONDS FOUR,
                     Card DIAMONDS THREE, Card DIAMONDS TWO, Card HEARTS ACE,
                     Card HEARTS KING, Card HEARTS QUEEN, Card HEARTS JACK,
                     Card HEARTS TEN, Card HEARTS NINE, Card HEARTS EIGHT,
                     Card HEARTS SEVEN, Card HEARTS SIX, Card HEARTS FIVE,
                     Card HEARTS FOUR, Card HEARTS THREE, Card HEARTS TWO,
                     Card SPADES ACE, Card SPADES KING, Card SPADES QUEEN,
                     Card SPADES JACK, Card SPADES TEN, Card SPADES NINE,
                     Card SPADES EIGHT, Card SPADES SEVEN, Card SPADES SIX,
                     Card SPADES FIVE, Card SPADES FOUR, Card SPADES THREE, Card SPADES TWO]),
                   (''B'', [])],
                active_players := [''A''], finished := True, kazhutha := Some ''A'',
                winners := [''B''],
                last_action := Some (''A took B'' @ [CHR 0x27] @ ''s hand!''),
                taken_hand_cards := hand_of started_AB ''B'',
                taken_hand_from := Some ''B'', taken_hand_by := Some ''A''\<rparr>"

text \<open>
  The session inside \<open>play_card\<close> when \<open>B\<close> has put the Two of Hearts on the pile and
  the round is about to be resolved.
\<close>

definition answered_AB :: game_session where
  "answered_AB = put_on_pile after_ace_AB ''B'' (hand_of after_ace_AB ''B'') (Card HEARTS TWO)"

section \<open>Sequences of operations\<close>

text \<open>
  The four operations that act on a started game, and a run of them: each call is
  applied to the session the previous one left, whatever flag it returned; a call that
  raises ends the run with its exception.
\<close>

datatype operation =
  Play string "string \<rightharpoonup> string" | TakeHand string | Disconnect string | Reconnect string

fun apply_operation :: "game_session \<Rightarrow> operation \<Rightarrow> error + game_session" where
  "apply_operation s (Play p d) = ebind (play_card s p d) (\<lambda>r. Inr (fst r))"
| "apply_operation s (TakeHand p) = ebind (take_hand_from_left s p) (\<lambda>r. Inr (fst r))"
| "apply_operation s (Disconnect p) = remove_player s p"
| "apply_operation s (Reconnect p) = player_reconnected s p"

fun run_operations :: "game_session \<Rightarrow> operation list \<Rightarrow> error + game_session" where
  "run_operations s [] = Inr s"
| "run_operations s (x # xs) = ebind (apply_operation s x) (\<lambda>s'. run_operations s' xs)"

text \<open>
  The invariant behind the placement order: every winner is out of the active players
  and holds no card; the players of the pile are active; a non-empty pile means a round
  in progress; the active players are pairwise different.
\<close>

definition winners_retired :: "game_session \<Rightarrow> bool" where
  "winners_retired s =
     ((\<forall>w \<in> set (winners s). w \<notin> set (active_players s) \<and> hand_of s w = [])
      \<and> fst ` set (current_pile s) \<subseteq> set (active_players s)
      \<and> (current_pile s \<noteq> [] \<longrightarrow> round_in_progress s)
      \<and> distinct (active_players s))"

text \<open>
  A started game: the seating order lists the keys of \<open>players\<close> and contains the
  active players, and the first card of a non-empty pile has the suit recorded as
  \<open>original_suit\<close>.
\<close>

definition in_play :: "game_session \<Rightarrow> bool" where
  "in_play s =
     (game_started s \<and> seated s \<and> set (active_players s) \<subseteq> set (player_order s)
      \<and> (current_pile s \<noteq> []
           \<longrightarrow> original_suit s = Some (suit (snd (hd (current_pile s))))))"

text \<open>
  While a round is open the suit recorded as \<open>current_suit\<close> is the one recorded as
  \<open>original_suit\<close>.
\<close>

definition suit_recorded :: "game_session \<Rightarrow> bool" where
  "suit_recorded s = (current_pile s \<noteq> [] \<longrightarrow> current_suit s = original_suit s)"

text \<open>Every seated player is active or a winner.\<close>

definition accounted :: "game_session \<Rightarrow> bool" where
  "accounted s = (set (player_order s) \<subseteq> set (active_players s) \<union> set (winners s))"

section \<open>A three-player scenario\<close>

text \<open>
  The lobby \<open>A\<close>, \<open>B\<close>, \<open>C\<close> with the same outcome of the shuffle: \<open>A\<close> holds the Ace
  of Spades and begins; \<open>A\<close> takes the hand of \<open>B\<close>, who becomes the first winner;
  later \<open>B\<close> disconnects and reconnects, and \<open>A\<close> leads the Ace of Spades.
\<close>

definition lobby_ABC :: game_session where
  "lobby_ABC = fst (add_player lobby_AB ''C'')"

definition dealt_ABC :: game_session where
  "dealt_ABC = (case start_game lobby_ABC deck_AB of Inr s \<Rightarrow> s | Inl e \<Rightarrow> lobby_ABC)"

definition ops_take :: "operation list" where
  "ops_take = [TakeHand ''A'']"

definition retired_ABC :: game_session where
  "retired_ABC = (case run_operations dealt_ABC ops_take of Inr s \<Rightarrow> s | Inl e \<Rightarrow> dealt_ABC)"

definition ops_later :: "operation list" where
  "ops_later = [Disconnect ''B'', Reconnect ''B'', Play ''A'' (card_to_dict ace_of_spades),
                Reconnect ''B'']"

definition later_ABC :: game_session where
  "later_ABC = (case run_operations retired_ABC ops_later of Inr s \<Rightarrow> s | Inl e \<Rightarrow> retired_ABC)"

text \<open>
  Two more courses of the same game. In the first \<open>A\<close> leads the Ace of Spades at
  once and \<open>B\<close>, who holds spades, follows with the Queen. In the second, after \<open>A\<close>
  has taken the hand of \<open>B\<close>, \<open>A\<close> also takes the hand of \<open>C\<close>.
\<close>

definition ops_lead :: "operation list" where
  "ops_lead = [Play ''A'' (card_to_dict ace_of_spades)]"

definition led_ABC :: game_session where
  "led_ABC = (case run_operations dealt_ABC ops_lead of Inr s \<Rightarrow> s | Inl e \<Rightarrow> dealt_ABC)"

definition followed_ABC :: game_session where
  "followed_ABC =
     (case play_card led_ABC ''B'' (card_to_dict (Card SPADES QUEEN)) of
        Inr r \<Rightarrow> fst r | Inl e \<Rightarrow> led_ABC)"

definition ended_ABC :: game_session where
  "ended_ABC =
     (case take_hand_from_left retired_ABC ''A'' of Inr r \<Rightarrow> fst r | Inl e \<Rightarrow> retired_ABC)"

section \<open>Basic facts about the helpers\<close>

lemma ebind_Inr [simp]: "ebind (Inr x) f = f x"
  by (simp add: ebind_def)

lemma ebind_Inl [simp]: "ebind (Inl e) f = Inl e"
  by (simp add: ebind_def)

lemma ebind_eq_Inr: "(ebind m f = Inr y) = (\<exists>x. m = Inr x \<and> f x = Inr y)"
  by (cases m) simp_all

lemma get_hand_eq_Inr: "(get_hand ps k = Inr h) = (map_of ps k = Some h)"
  by (simp add: get_hand_def split: option.splits)

lemma get_hand_key: "k \<in> fst ` set ps \<Longrightarrow> \<exists>h. get_hand ps k = Inr h"
  by (cases "map_of ps k") (auto simp: get_hand_def map_of_eq_None_iff)

lemma index_of_Some: "index_of xs x = Some i \<Longrightarrow> i < length xs \<and> xs ! i = x"
  by (induction xs arbitrary: i) (auto split: if_splits)

lemma index_of_mem: "x \<in> set xs \<Longrightarrow> \<exists>i. index_of xs x = Some i"
  by (induction xs) auto

lemma list_index_Inr: "list_index xs x = Inr i \<Longrightarrow> i < length xs \<and> xs ! i = x"
  by (auto simp: list_index_def split: option.splits dest: index_of_Some)

lemma list_index_mem: "x \<in> set xs \<Longrightarrow> \<exists>i. list_index xs x = Inr i"
  using index_of_mem [of x xs] by (auto simp: list_index_def)

lemma mset_sort_hand [simp]: "mset (sort_hand h) = mset h"
  by (simp add: sort_hand_def)

lemma length_sort_hand [simp]: "length (sort_hand h) = length h"
  by (simp add: sort_hand_def)

lemma set_sort_hand [simp]: "set (sort_hand h) = set h"
  by (simp add: sort_hand_def)

lemma hand_of_get: "get_hand (players s) k = Inr h \<Longrightarrow> hand_of s k = h"
  by (simp add: hand_of_def get_hand_eq_Inr)

lemma hand_of_players: "players s' = players s \<Longrightarrow> hand_of s' q = hand_of s q"
  by (simp add: hand_of_def)

lemma hand_of_update:
  "players s' = AList.update k h (players s) \<Longrightarrow> hand_of s' q = (if q = k then h else hand_of s q)"
  by (simp add: hand_of_def update_conv')

section \<open>The two-player scenario, evaluated\<close>

lemma start_game_AB: "start_game lobby_AB deck_AB = Inr started_AB"
  by code_simp

lemma play_ace_AB:
  "play_card started_AB ''A'' (card_to_dict ace_of_spades) = Inr (after_ace_AB, True, None)"
  by code_simp

lemma play_two_AB:
  "play_card after_ace_AB ''B'' (card_to_dict (Card HEARTS TWO)) = Inr (after_two_AB, True, None)"
  by code_simp

lemma take_AB:
  "take_hand_from_left started_AB ''A''
     = Inr (taken_AB, True, ''Took 26 cards from B'', Some ''B'')"
  by code_simp

section \<open>What each step leaves unchanged\<close>

lemma check_game_over_frame:
  "check_game_over s = Inr s'
   \<Longrightarrow> s' = s\<lparr>finished := finished s', kazhutha := kazhutha s', last_action := last_action s'\<rparr>"
  by (auto simp: check_game_over_def ebind_eq_Inr split: if_splits)

lemma check_game_over_fields:
  assumes "check_game_over s = Inr s'"
  shows "players s' = players s" and "active_players s' = active_players s"
    and "winners s' = winners s" and "current_pile s' = current_pile s"
    and "discarded_cards s' = discarded_cards s" and "player_order s' = player_order s"
    and "current_player_idx s' = current_player_idx s"
    and "round_in_progress s' = round_in_progress s"
    and "resolved_winner s' = resolved_winner s"
  by (subst check_game_over_frame [OF assms], simp)+

lemma next_clockwise_frame:
  "next_clockwise s w is = Inr s' \<Longrightarrow> s' = s\<lparr>current_player_idx := current_player_idx s'\<rparr>"
  by (induction "is") (auto simp: Let_def ebind_eq_Inr split: if_splits)

lemma set_next_leader_frame:
  "set_next_leader s w = Inr s' \<Longrightarrow> s' = s\<lparr>current_player_idx := current_player_idx s'\<rparr>"
  by (auto simp: set_next_leader_def ebind_eq_Inr split: if_splits dest: next_clockwise_frame)

lemma set_next_leader_fields:
  assumes "set_next_leader s w = Inr s'"
  shows "players s' = players s" and "active_players s' = active_players s"
    and "winners s' = winners s" and "current_pile s' = current_pile s"
    and "discarded_cards s' = discarded_cards s" and "player_order s' = player_order s"
    and "round_in_progress s' = round_in_progress s"
    and "resolved_winner s' = resolved_winner s"
    and "finished s' = finished s" and "kazhutha s' = kazhutha s"
  by (subst set_next_leader_frame [OF assms], simp)+

lemma advance_frame:
  "advance_to_next_active_player s = Inr s'
   \<Longrightarrow> s' = s\<lparr>current_player_idx := current_player_idx s'\<rparr>"
  by (auto simp: advance_to_next_active_player_def ebind_eq_Inr split: if_splits)

lemma advance_fields:
  assumes "advance_to_next_active_player s = Inr s'"
  shows "players s' = players s" and "active_players s' = active_players s"
    and "winners s' = winners s" and "current_pile s' = current_pile s"
    and "discarded_cards s' = discarded_cards s" and "player_order s' = player_order s"
    and "round_in_progress s' = round_in_progress s"
  by (subst advance_frame [OF assms], simp)+

lemma check_for_winners_loop_frame:
  "check_for_winners_loop ps s = Inr s'
   \<Longrightarrow> s' = s\<lparr>winners := winners s', active_players := active_players s'\<rparr>"
proof (induction ps arbitrary: s)
  case Nil
  then show ?case by simp
next
  case (Cons p ps)
  from Cons.prems obtain h where "get_hand (players s) p = Inr h" and
    r: "(if length h = 0 \<and> p \<notin> set (winners s)
         then check_for_winners_loop ps
                (s\<lparr>winners := winners s @ [p],
                   active_players := remove1 p (active_players s)\<rparr>)
         else check_for_winners_loop ps s) = Inr s'"
    by (auto simp: ebind_eq_Inr)
  show ?case
  proof (cases "length h = 0 \<and> p \<notin> set (winners s)")
    case True
    with r have "check_for_winners_loop ps
                (s\<lparr>winners := winners s @ [p],
                   active_players := remove1 p (active_players s)\<rparr>) = Inr s'"
      by (simp split: if_splits)
    from Cons.IH [OF this]
    have "s' = s\<lparr>winners := winners s @ [p],
                 active_players := remove1 p (active_players s)\<rparr>
                 \<lparr>winners := winners s', active_players := active_players s'\<rparr>" .
    then show ?thesis by simp
  next
    case False
    with r have "check_for_winners_loop ps s = Inr s'"
      by (simp split: if_splits)
    then show ?thesis by (rule Cons.IH)
  qed
qed

lemma check_for_winners_fields:
  assumes "check_for_winners s = Inr s'"
  shows "players s' = players s" and "current_pile s' = current_pile s"
    and "discarded_cards s' = discarded_cards s" and "player_order s' = player_order s"
    and "current_player_idx s' = current_player_idx s"
    and "round_in_progress s' = round_in_progress s"
    and "resolved_winner s' = resolved_winner s"
    and "finished s' = finished s" and "kazhutha s' = kazhutha s"
  by (subst check_for_winners_loop_frame [OF assms [unfolded check_for_winners_def]], simp)+

section \<open>The opening card\<close>

text \<open>
  Claim C8. In a started, unfinished game whose first card has not been played, a call
  of \<open>play_card\<close> by the current player, who is active and holds the named card, with
  a card other than the Ace of Spades returns the failure
  \<open>First card must be Ace of Spades\<close> and the session it was given, unchanged in every
  field.
\<close>

theorem first_card_must_be_ace_of_spades:
  assumes "game_started s" and "\<not> finished s" and "\<not> game_first_card_played s"
    and "current_player s = Inr p" and "p \<in> set (active_players s)"
    and "card_of_dict d = Inr c" and "get_hand (players s) p = Inr h" and "c \<in> set h"
    and "c \<noteq> ace_of_spades"
  shows "play_card s p d = Inr (s, False, Some ''First card must be Ace of Spades'')"
proof -
  from \<open>c \<noteq> ace_of_spades\<close> have "suit c \<noteq> SPADES \<or> rank c \<noteq> ACE"
    by (cases c) (simp add: ace_of_spades_def)
  with assms show ?thesis
    by (simp add: play_card_def)
qed

theorem first_card_must_be_ace_of_spades_witness:
  "game_started started_AB \<and> \<not> finished started_AB \<and> \<not> game_first_card_played started_AB
   \<and> current_player started_AB = Inr ''A'' \<and> ''A'' \<in> set (active_players started_AB)
   \<and> card_of_dict (card_to_dict (Card CLUBS ACE)) = Inr (Card CLUBS ACE)
   \<and> Card CLUBS ACE \<in> set (hand_of started_AB ''A'')
   \<and> Card CLUBS ACE \<noteq> ace_of_spades
   \<and> play_card started_AB ''A'' (card_to_dict (Card CLUBS ACE))
       = Inr (started_AB, False, Some ''First card must be Ace of Spades'')"
proof -
  have h1: "game_started started_AB" by code_simp
  have h2: "\<not> finished started_AB" by code_simp
  have h3: "\<not> game_first_card_played started_AB" by code_simp
  have h4: "current_player started_AB = Inr ''A''" by code_simp
  have h5: "''A'' \<in> set (active_players started_AB)" by code_simp
  have h6: "card_of_dict (card_to_dict (Card CLUBS ACE)) = Inr (Card CLUBS ACE)" by code_simp
  have h7: "get_hand (players started_AB) ''A'' = Inr (hand_of started_AB ''A'')" by code_simp
  have h8: "Card CLUBS ACE \<in> set (hand_of started_AB ''A'')" by code_simp
  have h9: "Card CLUBS ACE \<noteq> ace_of_spades" by code_simp
  from first_card_must_be_ace_of_spades [OF h1 h2 h3 h4 h5 h6 h7 h8 h9]
  show ?thesis using h1 h2 h3 h4 h5 h6 h8 h9 by simp
qed

section \<open>Following suit\<close>

text \<open>
  The test of \<open>play_card\<close> against the field \<open>current_suit\<close>: a card that is accepted
  on a non-empty pile has the recorded suit, unless the hand holds no card of it.
\<close>

lemma play_card_follows_current_suit:
  assumes "play_card s p d = Inr (s', True, m)" and "current_pile s \<noteq> []"
    and "card_of_dict d = Inr c"
  shows "\<not> (\<exists>c' \<in> set (hand_of s p). Some (suit c') = current_suit s)
         \<or> Some (suit c) = current_suit s"
  using assms
  by (auto simp: play_card_def ebind_eq_Inr open_round_def hand_of_def get_hand_eq_Inr Let_def
      split: if_splits option.splits)

section \<open>Taking a hand\<close>

lemma get_player_on_left_Some:
  assumes "get_player_on_left s p = Some l"
  shows "l \<noteq> p" and "l \<in> set (active_players s)" and "p \<in> set (active_players s)"
proof -
  from assms obtain idx where i: "index_of (active_players s) p = Some idx"
    and l: "l = active_players s ! ((idx + 1) mod length (active_players s))" and "l \<noteq> p"
    by (auto simp: get_player_on_left_def Let_def split: option.splits if_splits)
  from index_of_Some [OF i] have "idx < length (active_players s)" "active_players s ! idx = p"
    by auto
  then show "p \<in> set (active_players s)" by auto
  from \<open>idx < length (active_players s)\<close> have "0 < length (active_players s)"
    by (cases "active_players s") auto
  then have "(idx + 1) mod length (active_players s) < length (active_players s)"
    by (rule mod_less_divisor)
  with l show "l \<in> set (active_players s)" by simp
  show "l \<noteq> p" by fact
qed

lemma take_hand_transfer_Inr:
  assumes "take_hand_transfer s p l taken = Inr s1" and "l \<noteq> p"
  shows "\<exists>own. get_hand (players s) p = Inr own \<and>
     s1 = s\<lparr>players := AList.update p (sort_hand (own @ taken))
                          (AList.update l [] (AList.update p (own @ taken) (players s))),
            taken_hand_cards := taken, taken_hand_from := Some l, taken_hand_by := Some p,
            winners := winners s @ [l], active_players := remove1 l (active_players s)\<rparr>"
  using assms
  by (auto simp: take_hand_transfer_def ebind_eq_Inr Let_def get_hand_eq_Inr update_conv')

lemma take_hand_finish_Inr:
  assumes "take_hand_finish s1 p l = Inr s2"
  shows "players s2 = players s1" and "active_players s2 = active_players s1"
    and "winners s2 = winners s1" and "current_pile s2 = current_pile s1"
    and "discarded_cards s2 = discarded_cards s1" and "player_order s2 = player_order s1"
    and "round_in_progress s2 = round_in_progress s1"
    and "p \<in> set (active_players s1) \<Longrightarrow> current_player s2 = Inr p"
    and "\<exists>sg. check_game_over s1 = Inr sg \<and> finished s2 = finished sg \<and> kazhutha s2 = kazhutha sg"
proof -
  from assms obtain sg sh where g: "check_game_over s1 = Inr sg"
    and h: "(if p \<in> set (active_players sg)
            then ebind (list_index (active_players sg) p)
                   (\<lambda>i. Inr (sg\<lparr>current_player_idx := i\<rparr>))
            else Inr sg) = Inr sh"
    and s2: "s2 = sh\<lparr>resolved_pile := [], resolved_winner := None,
               last_action := Some (p @ '' took '' @ l @ [CHR 0x27] @ ''s hand!'')\<rparr>"
    by (auto simp: take_hand_finish_def ebind_eq_Inr)
  note gf = check_game_over_fields [OF g]
  from h have hf: "sh = sg\<lparr>current_player_idx := current_player_idx sh\<rparr>"
    by (auto simp: ebind_eq_Inr split: if_splits)
  have sh_fields: "players sh = players sg" "active_players sh = active_players sg"
    "winners sh = winners sg" "current_pile sh = current_pile sg"
    "discarded_cards sh = discarded_cards sg" "player_order sh = player_order sg"
    "round_in_progress sh = round_in_progress sg" "finished sh = finished sg"
    "kazhutha sh = kazhutha sg"
    by (subst hf, simp)+
  show "players s2 = players s1" using s2 sh_fields gf by simp
  show "active_players s2 = active_players s1" using s2 sh_fields gf by simp
  show "winners s2 = winners s1" using s2 sh_fields gf by simp
  show "current_pile s2 = current_pile s1" using s2 sh_fields gf by simp
  show "discarded_cards s2 = discarded_cards s1" using s2 sh_fields gf by simp
  show "player_order s2 = player_order s1" using s2 sh_fields gf by simp
  show "round_in_progress s2 = round_in_progress s1" using s2 sh_fields gf by simp
  show "\<exists>sg. check_game_over s1 = Inr sg \<and> finished s2 = finished sg \<and> kazhutha s2 = kazhutha sg"
    using g s2 sh_fields by simp
  show "current_player s2 = Inr p" if "p \<in> set (active_players s1)"
  proof -
    from that gf have pin: "p \<in> set (active_players sg)" by simp
    with h obtain i where i: "list_index (active_players sg) p = Inr i"
      and "sh = sg\<lparr>current_player_idx := i\<rparr>"
      by (auto simp: ebind_eq_Inr)
    from list_index_Inr [OF i] have "i < length (active_players sg)" "active_players sg ! i = p"
      by auto
    with \<open>sh = sg\<lparr>current_player_idx := i\<rparr>\<close> s2 pin show ?thesis
      by (auto simp: current_player_def)
  qed
qed

lemma take_hand_success:
  assumes "take_hand_from_left s p = Inr (s', True, msg, taken)"
  shows "\<exists>l lh s1. taken = Some l \<and> get_player_on_left s p = Some l \<and> l \<noteq> []
      \<and> get_hand (players s) l = Inr lh \<and> lh \<noteq> []
      \<and> take_hand_transfer s p l lh = Inr s1 \<and> take_hand_finish s1 p l = Inr s'
      \<and> game_started s \<and> \<not> finished s \<and> (round_in_progress s \<longrightarrow> current_pile s = [])
      \<and> current_player s = Inr p"
proof -
  note d = take_hand_from_left_def
  have 1: "game_started s \<and> \<not> finished s"
    by (rule ccontr) (use assms in \<open>auto simp: d\<close>)
  have 2: "round_in_progress s \<longrightarrow> current_pile s = []"
    by (rule ccontr) (use assms 1 in \<open>auto simp: d\<close>)
  have 3: "p \<in> set (active_players s)"
    by (rule ccontr) (use assms 1 2 in \<open>auto simp: d\<close>)
  obtain cp where cp: "current_player s = Inr cp"
    by (cases "current_player s") (use assms 1 2 3 in \<open>auto simp: d\<close>)
  have 4: "cp = p"
    by (rule ccontr) (use assms 1 2 3 cp in \<open>auto simp: d\<close>)
  obtain l where l: "get_player_on_left s p = Some l"
    by (cases "get_player_on_left s p") (use assms 1 2 3 cp 4 in \<open>auto simp: d\<close>)
  have 5: "l \<noteq> []"
    by (rule ccontr) (use assms 1 2 3 cp 4 l in \<open>auto simp: d\<close>)
  obtain lh where lh: "get_hand (players s) l = Inr lh"
    by (cases "get_hand (players s) l") (use assms 1 2 3 cp 4 l 5 in \<open>auto simp: d\<close>)
  have 6: "lh \<noteq> []"
    by (rule ccontr) (use assms 1 2 3 cp 4 l 5 lh in \<open>auto simp: d\<close>)
  from assms 1 2 3 cp 4 l 5 lh 6
  have "ebind (take_hand_transfer s p l lh) (\<lambda>s1.
          ebind (take_hand_finish s1 p l) (\<lambda>s2.
            Inr (s2, True, ''Took '' @ str_nat (length lh) @ '' cards from '' @ l, Some l)))
        = Inr (s', True, msg, taken)"
    by (auto simp: d)
  then obtain s1 where "take_hand_transfer s p l lh = Inr s1"
    and "take_hand_finish s1 p l = Inr s'" and "taken = Some l"
    by (auto simp: ebind_eq_Inr)
  with 1 2 cp 4 l 5 lh 6 show ?thesis by simp
qed

lemma players_with_cards_single:
  "get_hand ps p = Inr h \<Longrightarrow> players_with_cards ps [p] = Inr (if length h > 0 then [p] else [])"
  by simp

lemma two_distinct_members:
  assumes "length xs = 2" and "a \<in> set xs" and "b \<in> set xs" and "a \<noteq> b"
  shows "xs = [a, b] \<or> xs = [b, a]"
proof -
  from assms(1) obtain x y where "xs = [x, y]"
    by (cases xs; cases "tl xs") auto
  with assms show ?thesis by auto
qed

lemma concat_single_hand:
  assumes "distinct (map fst ps)" and "map_of ps p = Some h"
    and "\<forall>(q, hq) \<in> set ps. q \<noteq> p \<longrightarrow> hq = []"
  shows "concat (map snd ps) = h"
  using assms
proof (induction ps)
  case Nil
  then show ?case by simp
next
  case (Cons a ps)
  obtain q hq where a: "a = (q, hq)" by (cases a)
  show ?case
  proof (cases "q = p")
    case True
    with Cons.prems a have "hq = h" by simp
    have "\<forall>(q', h') \<in> set ps. h' = []"
    proof (clarify)
      fix q' h' assume m: "(q', h') \<in> set ps"
      with Cons.prems(1) a True have "q' \<noteq> p" by force
      with Cons.prems(3) m show "h' = []" by auto
    qed
    then have "concat (map snd ps) = []" by auto
    with a \<open>hq = h\<close> show ?thesis by simp
  next
    case False
    with Cons.prems a have "hq = []" by auto
    moreover from Cons.prems a False have "concat (map snd ps) = h"
      by (intro Cons.IH) auto
    ultimately show ?thesis using a by simp
  qed
qed

lemma mset_hands_update:
  assumes "distinct (map fst ps)" and "map_of ps k = Some h"
  shows "mset (concat (map snd (AList.update k h' ps))) + mset h
         = mset (concat (map snd ps)) + mset h'"
  using assms
proof (induction ps)
  case Nil
  then show ?case by simp
next
  case (Cons a ps)
  show ?case
  proof (cases "fst a = k")
    case True
    with Cons.prems have "snd a = h" by (cases a) simp
    with True show ?thesis by (cases a) simp
  next
    case False
    with Cons.prems have "map_of ps k = Some h" by (cases a) auto
    moreover from Cons.prems have "distinct (map fst ps)" by simp
    ultimately have "mset (concat (map snd (AList.update k h' ps))) + mset h
         = mset (concat (map snd ps)) + mset h'"
      by (intro Cons.IH)
    with False show ?thesis by (simp add: ac_simps)
  qed
qed

lemma take_hand_transfer_hands:
  assumes "take_hand_transfer s p l lh = Inr s1" and "l \<noteq> p"
    and "get_hand (players s) l = Inr lh" and "distinct (map fst (players s))"
  shows "mset (all_hands s1) = mset (all_hands s)"
proof -
  from take_hand_transfer_Inr [OF assms(1,2)] obtain own where
    own: "get_hand (players s) p = Inr own"
    and s1: "s1 = s\<lparr>players := AList.update p (sort_hand (own @ lh))
                          (AList.update l [] (AList.update p (own @ lh) (players s))),
            taken_hand_cards := lh, taken_hand_from := Some l, taken_hand_by := Some p,
            winners := winners s @ [l], active_players := remove1 l (active_players s)\<rparr>"
    by blast
  define ps1 where "ps1 = AList.update p (own @ lh) (players s)"
  define ps2 where "ps2 = AList.update l [] ps1"
  define ps3 where "ps3 = AList.update p (sort_hand (own @ lh)) ps2"
  have d1: "distinct (map fst ps1)" unfolding ps1_def using assms(4) by (rule distinct_update)
  have d2: "distinct (map fst ps2)" unfolding ps2_def using d1 by (rule distinct_update)
  from own have m0: "map_of (players s) p = Some own" by (simp add: get_hand_eq_Inr)
  from assms(2,3) have m1: "map_of ps1 l = Some lh"
    by (simp add: ps1_def update_conv' get_hand_eq_Inr)
  from assms(2) have m2: "map_of ps2 p = Some (own @ lh)"
    by (simp add: ps2_def ps1_def update_conv')
  from mset_hands_update [OF assms(4) m0, of "own @ lh"]
  have e1: "mset (concat (map snd ps1)) = mset (concat (map snd (players s))) + mset lh"
    by (simp add: ps1_def)
  from mset_hands_update [OF d1 m1, of "[]"]
  have e2: "mset (concat (map snd ps2)) + mset lh = mset (concat (map snd ps1))"
    by (simp add: ps2_def)
  from mset_hands_update [OF d2 m2, of "sort_hand (own @ lh)"]
  have e3: "mset (concat (map snd ps3)) = mset (concat (map snd ps2))"
    by (simp add: ps3_def)
  from e1 e2 e3 have "mset (concat (map snd ps3)) = mset (concat (map snd (players s)))"
    by simp
  then show ?thesis by (simp add: all_hands_def s1 ps3_def ps2_def ps1_def)
qed

text \<open>
  Claim C4. After a successful \<open>take_hand_from_left\<close> by \<open>p\<close> on a session whose
  active players are pairwise different: the returned neighbour \<open>l\<close> is the player on
  the left of \<open>p\<close>; the hand of \<open>p\<close> has as many cards as the two hands had before;
  the hand of \<open>l\<close> is empty; \<open>l\<close> has been appended to the winners and removed from
  the active players; \<open>p\<close> is still active and is the current player.
\<close>

theorem take_hand_sizes:
  assumes "take_hand_from_left s p = Inr (s', True, msg, taken)"
    and "distinct (active_players s)"
  shows "\<exists>l. taken = Some l \<and> get_player_on_left s p = Some l \<and> l \<noteq> p
      \<and> length (hand_of s' p) = length (hand_of s p) + length (hand_of s l)
      \<and> hand_of s' l = []
      \<and> winners s' = winners s @ [l]
      \<and> active_players s' = remove1 l (active_players s)
      \<and> l \<notin> set (active_players s')
      \<and> p \<in> set (active_players s')
      \<and> current_player s' = Inr p"
proof -
  from take_hand_success [OF assms(1)] obtain l lh s1 where
    t: "taken = Some l" and l: "get_player_on_left s p = Some l"
    and lh: "get_hand (players s) l = Inr lh"
    and tr: "take_hand_transfer s p l lh = Inr s1" and fin: "take_hand_finish s1 p l = Inr s'"
    by blast
  note lp = get_player_on_left_Some [OF l]
  from take_hand_transfer_Inr [OF tr lp(1)] obtain own where
    own: "get_hand (players s) p = Inr own"
    and s1: "s1 = s\<lparr>players := AList.update p (sort_hand (own @ lh))
                          (AList.update l [] (AList.update p (own @ lh) (players s))),
            taken_hand_cards := lh, taken_hand_from := Some l, taken_hand_by := Some p,
            winners := winners s @ [l], active_players := remove1 l (active_players s)\<rparr>"
    by blast
  note ff = take_hand_finish_Inr [OF fin]
  from s1 ff(1) have pl: "players s' = AList.update p (sort_hand (own @ lh))
                          (AList.update l [] (AList.update p (own @ lh) (players s)))"
    by simp
  have hp: "hand_of s' p = sort_hand (own @ lh)"
    by (simp add: hand_of_def pl update_conv')
  have hl: "hand_of s' l = []"
    using lp(1) by (simp add: hand_of_def pl update_conv')
  from s1 ff(2) have act: "active_players s' = remove1 l (active_players s)" by simp
  from s1 ff(3) have win: "winners s' = winners s @ [l]" by simp
  from assms(2) have lout: "l \<notin> set (active_players s')" by (simp add: act)
  from lp have pin1: "p \<in> set (active_players s1)" by (simp add: s1)
  then have pin: "p \<in> set (active_players s')" by (simp add: ff(2))
  from ff(8) [OF pin1] have cur: "current_player s' = Inr p" .
  from hp hand_of_get [OF own] hand_of_get [OF lh]
  have "length (hand_of s' p) = length (hand_of s p) + length (hand_of s l)" by simp
  with t l lp(1) hl win act lout pin cur show ?thesis by simp
qed

theorem take_hand_sizes_witness:
  "take_hand_from_left started_AB ''A'' = Inr (taken_AB, True, ''Took 26 cards from B'', Some ''B'')
   \<and> distinct (active_players started_AB)
   \<and> get_player_on_left started_AB ''A'' = Some ''B''
   \<and> length (hand_of taken_AB ''A'')
       = length (hand_of started_AB ''A'') + length (hand_of started_AB ''B'')
   \<and> hand_of taken_AB ''B'' = []
   \<and> winners taken_AB = winners started_AB @ [''B'']
   \<and> ''B'' \<notin> set (active_players taken_AB)
   \<and> current_player taken_AB = Inr ''A''"
proof -
  note h1 = take_AB
  have h2: "distinct (active_players started_AB)" by code_simp
  from take_hand_sizes [OF h1 h2] h1 h2 show ?thesis by auto
qed

text \<open>
  With exactly two active players a successful \<open>take_hand_from_left\<close> ends the game.
  The last part is stated for any session in which the keys of \<open>players\<close> are
  distinct, every player who is not active holds no card and a non-empty pile means a
  round in progress.
\<close>

lemma take_hand_two_players:
  assumes "take_hand_from_left s p = Inr (s', True, msg, taken)"
    and "length (active_players s) = 2"
  shows "finished s' \<and> kazhutha s' = Some p
      \<and> (\<exists>l. get_player_on_left s p = Some l \<and> taken = Some l \<and> winners s' = winners s @ [l])
      \<and> active_players s' = [p]
      \<and> (distinct (map fst (players s))
           \<and> (\<forall>(q, h) \<in> set (players s). q \<notin> set (active_players s) \<longrightarrow> h = [])
           \<and> (current_pile s \<noteq> [] \<longrightarrow> round_in_progress s)
          \<longrightarrow> all_hands s' = hand_of s' p \<and> current_pile s' = []
              \<and> mset (hand_of s' p) = mset (all_hands s))"
proof -
  from take_hand_success [OF assms(1)] obtain l lh s1 where
    t: "taken = Some l" and l: "get_player_on_left s p = Some l"
    and lh: "get_hand (players s) l = Inr lh" and lhne: "lh \<noteq> []"
    and tr: "take_hand_transfer s p l lh = Inr s1" and fin: "take_hand_finish s1 p l = Inr s'"
    and rip: "round_in_progress s \<longrightarrow> current_pile s = []"
    by blast
  note lp = get_player_on_left_Some [OF l]
  from take_hand_transfer_Inr [OF tr lp(1)] obtain own where
    own: "get_hand (players s) p = Inr own"
    and s1: "s1 = s\<lparr>players := AList.update p (sort_hand (own @ lh))
                          (AList.update l [] (AList.update p (own @ lh) (players s))),
            taken_hand_cards := lh, taken_hand_from := Some l, taken_hand_by := Some p,
            winners := winners s @ [l], active_players := remove1 l (active_players s)\<rparr>"
    by blast
  note ff = take_hand_finish_Inr [OF fin]
  from two_distinct_members [OF assms(2) lp(3) lp(2)] lp(1)
  have two: "active_players s = [p, l] \<or> active_players s = [l, p]" by auto
  with lp(1) have act1: "active_players s1 = [p]" by (auto simp: s1)
  have hp1: "get_hand (players s1) p = Inr (sort_hand (own @ lh))"
    by (simp add: s1 get_hand_eq_Inr update_conv')
  from lhne have ne: "length (sort_hand (own @ lh)) > 0" by simp
  have "players_with_cards (players s1) (active_players s1) = Inr [p]"
    using players_with_cards_single [OF hp1] ne by (simp only: act1 if_True)
  then have go: "check_game_over s1
      = Inr (s1\<lparr>finished := True, kazhutha := Some p,
                 last_action := Some (p @ '' is the Kazhutha!'')\<rparr>)"
    by (simp add: check_game_over_def)
  from ff(9) go have fk: "finished s' \<and> kazhutha s' = Some p" by auto
  from s1 ff(3) have win: "winners s' = winners s @ [l]" by simp
  from act1 ff(2) have act: "active_players s' = [p]" by simp
  have rest: "all_hands s' = hand_of s' p \<and> current_pile s' = []
              \<and> mset (hand_of s' p) = mset (all_hands s)"
    if d: "distinct (map fst (players s))"
      and e: "\<forall>(q, h) \<in> set (players s). q \<notin> set (active_players s) \<longrightarrow> h = []"
      and r: "current_pile s \<noteq> [] \<longrightarrow> round_in_progress s"
  proof -
    from s1 ff(1) have pl: "players s' = AList.update p (sort_hand (own @ lh))
                          (AList.update l [] (AList.update p (own @ lh) (players s)))"
      by simp
    have dk: "distinct (map fst (players s'))"
      unfolding pl using d by (intro distinct_update)
    have mp: "map_of (players s') p = Some (sort_hand (own @ lh))"
      by (simp add: pl update_conv')
    have others: "\<forall>(q, hq) \<in> set (players s'). q \<noteq> p \<longrightarrow> hq = []"
    proof (clarify)
      fix q hq assume m: "(q, hq) \<in> set (players s')" and "q \<noteq> p"
      from m dk have mq: "map_of (players s') q = Some hq" by simp
      show "hq = []"
      proof (cases "q = l")
        case True
        with mq lp(1) show ?thesis by (simp add: pl update_conv')
      next
        case False
        with mq \<open>q \<noteq> p\<close> have "map_of (players s) q = Some hq"
          by (simp add: pl update_conv')
        then have "(q, hq) \<in> set (players s)" by (rule map_of_SomeD)
        moreover from two False \<open>q \<noteq> p\<close> have "q \<notin> set (active_players s)" by auto
        ultimately show ?thesis using e by auto
      qed
    qed
    from concat_single_hand [OF dk mp others]
    have ah: "all_hands s' = sort_hand (own @ lh)" by (simp add: all_hands_def)
    have hp: "hand_of s' p = sort_hand (own @ lh)" by (simp add: hand_of_def mp)
    from rip r have "current_pile s = []" by auto
    then have pile: "current_pile s' = []" by (simp add: ff(4) s1)
    from take_hand_transfer_hands [OF tr lp(1) lh d] ff(1)
    have "mset (all_hands s') = mset (all_hands s)" by (simp add: all_hands_def)
    with ah hp pile show ?thesis by simp
  qed
  from fk l t win act rest show ?thesis by blast
qed


section \<open>The lobby and the seating order\<close>

lemma seated_new_session: "seated (new_session gid host)"
  by (simp add: seated_def new_session_def)

lemma seated_add_player: "seated s \<Longrightarrow> seated (fst (add_player s n))"
  by (auto simp: seated_def add_player_def update_keys distinct_update)

lemma delete_keys: "map fst (AList.delete k ps) = removeAll k (map fst ps)"
  by (induction ps) auto

lemma seated_remove_player:
  assumes "seated s" and "remove_player s n = Inr s'"
  shows "seated s'"
proof (cases "n \<in> fst ` set (players s) \<and> \<not> game_started s")
  case True
  with assms(2) have s': "s' = s\<lparr>players := AList.delete n (players s),
                     player_order := remove1 n (player_order s)\<rparr>"
    by (auto simp: remove_player_def split: if_splits)
  from assms(1) have "distinct (map fst (players s))" "player_order s = map fst (players s)"
    by (auto simp: seated_def)
  then show ?thesis
    by (simp add: s' seated_def delete_keys distinct_remove1_removeAll distinct_removeAll)
next
  case False
  with assms(2) have "players s' = players s \<and> player_order s' = player_order s"
    by (auto simp: remove_player_def Let_def ebind_eq_Inr split: if_splits)
  with assms(1) show ?thesis by (simp add: seated_def)
qed

lemma reset_keys: "fst \<circ> (\<lambda>(name, h). (name, [])) = fst"
  by (auto simp: fun_eq_iff)

lemma list_all_update:
  "list_all P ps \<Longrightarrow> P (k, v) \<Longrightarrow> list_all P (AList.update k v ps)"
  by (induction ps) auto

lemma lobby_new_session: "lobby (new_session gid host)"
  by (simp add: lobby_def seated_def new_session_def)

lemma lobby_reset_game: "seated s \<Longrightarrow> lobby (reset_game s)"
  by (auto simp: lobby_def seated_def reset_game_def reset_keys list_all_iff)

lemma lobby_add_player: "lobby s \<Longrightarrow> lobby (fst (add_player s n))"
proof -
  assume l: "lobby s"
  then have "seated (fst (add_player s n))" by (simp add: lobby_def seated_add_player)
  moreover have "list_all (\<lambda>(name, h). h = []) (AList.update n [] (players s))"
    if "list_all (\<lambda>(name, h). h = []) (players s)"
    using that by (rule list_all_update) simp
  ultimately show ?thesis using l by (auto simp: lobby_def add_player_def)
qed

lemma list_all_delete: "list_all P ps \<Longrightarrow> list_all P (AList.delete k ps)"
  by (induction ps) auto

lemma lobby_remove_player:
  assumes "lobby s" and "remove_player s n = Inr s'"
  shows "lobby s'"
proof -
  from assms(1) have l: "seated s" "\<not> game_started s"
    "list_all (\<lambda>(name, h). h = []) (players s)"
    "discarded_cards s = []" "current_pile s = []" "winners s = []"
    by (simp_all add: lobby_def)
  from l(1) assms(2) have se: "seated s'" by (rule seated_remove_player)
  from assms(2) l(2) have "s' = s \<or> s' = s\<lparr>players := AList.delete n (players s),
                     player_order := remove1 n (player_order s)\<rparr>"
    by (auto simp: remove_player_def split: if_splits)
  then show ?thesis
  proof
    assume "s' = s"
    with assms(1) show ?thesis by simp
  next
    assume s': "s' = s\<lparr>players := AList.delete n (players s),
                     player_order := remove1 n (player_order s)\<rparr>"
    from l(3) have "list_all (\<lambda>(name, h). h = []) (players s')"
      unfolding s' by (simp add: list_all_delete)
    with se l(2,4,5,6) show ?thesis by (simp add: lobby_def s')
  qed
qed

section \<open>Dealing\<close>

lemma ordered_deck_distinct: "distinct ordered_deck"
  by (simp add: ordered_deck_def all_suits_def all_ranks_def)

lemma ordered_deck_length: "length ordered_deck = 52"
  by (simp add: ordered_deck_def all_suits_def all_ranks_def)

lemma ordered_deck_complete: "c \<in> set ordered_deck"
proof (cases c)
  case (Card s r)
  have "s \<in> set all_suits" by (cases s) (simp_all add: all_suits_def)
  moreover have "r \<in> set all_ranks" by (cases r) (simp_all add: all_ranks_def)
  ultimately show ?thesis unfolding Card ordered_deck_def by auto
qed

lemma hand_append_Inr:
  assumes "hand_append ps k c = Inr ps'"
  shows "\<exists>h. map_of ps k = Some h \<and> ps' = AList.update k (h @ [c]) ps"
  using assms by (auto simp: hand_append_def ebind_eq_Inr get_hand_eq_Inr)

lemma update_present_keys:
  "map_of ps k = Some h \<Longrightarrow> map fst (AList.update k v ps) = map fst ps"
  by (auto simp: update_keys dest: map_of_SomeD intro: rev_image_eqI)

lemma deal_keys:
  "deal names i cs ps = Inr ps' \<Longrightarrow> map fst ps' = map fst ps"
proof (induction cs arbitrary: i ps)
  case Nil
  then show ?case by simp
next
  case (Cons c cs)
  from Cons.prems obtain ps1 where a: "hand_append ps (names ! (i mod length names)) c = Inr ps1"
    and d: "deal names (i + 1) cs ps1 = Inr ps'"
    by (auto simp: ebind_eq_Inr)
  from hand_append_Inr [OF a] have "map fst ps1 = map fst ps"
    by (auto simp: update_present_keys)
  with Cons.IH [OF d] show ?case by simp
qed

lemma deal_mset:
  "distinct (map fst ps) \<Longrightarrow> deal names i cs ps = Inr ps'
   \<Longrightarrow> mset (concat (map snd ps')) = mset (concat (map snd ps)) + mset cs"
proof (induction cs arbitrary: i ps)
  case Nil
  then show ?case by simp
next
  case (Cons c cs)
  from Cons.prems obtain ps1 where a: "hand_append ps (names ! (i mod length names)) c = Inr ps1"
    and d: "deal names (i + 1) cs ps1 = Inr ps'"
    by (auto simp: ebind_eq_Inr)
  from hand_append_Inr [OF a] obtain h where
    h: "map_of ps (names ! (i mod length names)) = Some h"
    and ps1: "ps1 = AList.update (names ! (i mod length names)) (h @ [c]) ps"
    by blast
  from mset_hands_update [OF Cons.prems(1) h, of "h @ [c]"] ps1
  have m1: "mset (concat (map snd ps1)) = mset (concat (map snd ps)) + {#c#}" by simp
  from Cons.prems(1) have "distinct (map fst ps1)" unfolding ps1 by (rule distinct_update)
  from Cons.IH [OF this d] m1 show ?case by simp
qed

lemma deal_total:
  assumes "names \<noteq> []" and "set names \<subseteq> fst ` set ps"
  shows "\<exists>ps'. deal names i cs ps = Inr ps'"
  using assms(2)
proof (induction cs arbitrary: i ps)
  case Nil
  then show ?case by simp
next
  case (Cons c cs)
  let ?k = "names ! (i mod length names)"
  from assms(1) have "?k \<in> set names" by simp
  with Cons.prems have "?k \<in> fst ` set ps" by blast
  from get_hand_key [OF this] obtain h where h: "get_hand ps ?k = Inr h" by blast
  then have a: "hand_append ps ?k c = Inr (AList.update ?k (h @ [c]) ps)"
    by (simp add: hand_append_def)
  from h have "map fst (AList.update ?k (h @ [c]) ps) = map fst ps"
    by (simp add: update_present_keys get_hand_eq_Inr)
  then have "fst ` set (AList.update ?k (h @ [c]) ps) = fst ` set ps"
    by (metis set_map)
  with Cons.prems have "set names \<subseteq> fst ` set (AList.update ?k (h @ [c]) ps)" by simp
  from Cons.IH [OF this] a show ?case by simp
qed

lemma sort_all_keys: "map fst (sort_all ps) = map fst ps"
  by (induction ps) (auto simp: sort_all_def)

lemma sort_all_mset: "mset (concat (map snd (sort_all ps))) = mset (concat (map snd ps))"
  by (induction ps) (auto simp: sort_all_def)

lemma find_ace_total:
  "set po \<subseteq> fst ` set ps \<Longrightarrow> \<exists>r. find_ace ps i po = Inr r"
proof (induction po arbitrary: i)
  case Nil
  then show ?case by simp
next
  case (Cons n po)
  then have "n \<in> fst ` set ps" by simp
  from get_hand_key [OF this] obtain h where "get_hand ps n = Inr h" by blast
  with Cons show ?case by simp
qed

lemma find_ace_None:
  "find_ace ps i po = Inr None \<Longrightarrow> n \<in> set po \<Longrightarrow> map_of ps n = Some h
   \<Longrightarrow> ace_of_spades \<notin> set h"
  by (induction po arbitrary: i)
     (auto simp: ebind_eq_Inr get_hand_eq_Inr split: if_splits)

lemma find_ace_Some:
  "find_ace ps i po = Inr (Some j)
   \<Longrightarrow> i \<le> j \<and> j - i < length po
       \<and> (\<exists>h. map_of ps (po ! (j - i)) = Some h \<and> ace_of_spades \<in> set h)"
proof (induction po arbitrary: i)
  case Nil
  then show ?case by simp
next
  case (Cons n po)
  from Cons.prems obtain h where h: "map_of ps n = Some h"
    and r: "(if ace_of_spades \<in> set h then Inr (Some i) else find_ace ps (i + 1) po) = Inr (Some j)"
    by (auto simp: ebind_eq_Inr get_hand_eq_Inr)
  show ?case
  proof (cases "ace_of_spades \<in> set h")
    case True
    with r h show ?thesis by simp
  next
    case False
    with r have "find_ace ps (i + 1) po = Inr (Some j)" by simp
    from Cons.IH [OF this] obtain h' where "i + 1 \<le> j" "j - (i + 1) < length po"
      "map_of ps (po ! (j - (i + 1))) = Some h'" "ace_of_spades \<in> set h'"
      by blast
    moreover from \<open>i + 1 \<le> j\<close> have "j - i = Suc (j - (i + 1))" by arith
    then have "(n # po) ! (j - i) = po ! (j - (i + 1))" by simp
    ultimately show ?thesis by auto
  qed
qed

lemma start_game_Inr:
  assumes "start_game s deck = Inr s'"
  shows "\<exists>dealt found. deal (map fst (players s)) 0 deck (players s) = Inr dealt
     \<and> find_ace (sort_all dealt) 0 (player_order s) = Inr found
     \<and> 2 \<le> length (players s)
     \<and> s' = s\<lparr>players := sort_all dealt, active_players := player_order s,
              current_player_idx := (case found of None \<Rightarrow> current_player_idx s | Some i \<Rightarrow> i),
              game_started := True, game_first_card_played := False,
              original_players := player_order s,
              connected_players := set (player_order s)\<rparr>"
  using assms
  by (auto simp: start_game_def ebind_eq_Inr Let_def split: if_splits option.splits)

lemma start_game_total:
  assumes "seated s" and "2 \<le> length (players s)"
  shows "\<exists>s'. start_game s deck = Inr s'"
proof -
  from assms(2) have ne: "map fst (players s) \<noteq> []" by auto
  from deal_total [OF ne, of "players s" 0 deck] obtain dealt where
    d: "deal (map fst (players s)) 0 deck (players s) = Inr dealt" by auto
  from deal_keys [OF d] assms(1) have "set (player_order s) \<subseteq> fst ` set (sort_all dealt)"
    by (metis seated_def sort_all_keys set_map subset_refl)
  from find_ace_total [OF this, of 0] obtain found where
    "find_ace (sort_all dealt) 0 (player_order s) = Inr found" by blast
  with d assms(2) show ?thesis
    by (simp add: start_game_def Let_def)
qed

lemma single_holder:
  assumes "distinct (concat (map snd ps))" and "a \<in> set (concat (map snd ps))"
  shows "length (filter (\<lambda>(n, h). a \<in> set h) ps) = 1"
  using assms
proof (induction ps)
  case Nil
  then show ?case by simp
next
  case (Cons x ps)
  obtain n h where x: "x = (n, h)" by (cases x)
  show ?case
  proof (cases "a \<in> set h")
    case True
    with Cons.prems(1) x have "a \<notin> set (concat (map snd ps))" by auto
    then have "filter (\<lambda>(n, h). a \<in> set h) ps = []"
      by (auto simp: filter_empty_conv)
    with True x show ?thesis by simp
  next
    case False
    with Cons.prems x have "a \<in> set (concat (map snd ps))" "distinct (concat (map snd ps))"
      by auto
    from Cons.IH [OF this(2,1)] False x show ?thesis by simp
  qed
qed

lemma start_game_deals_deck:
  assumes "lobby s" and "is_shuffle deck" and "start_game s deck = Inr s'"
  shows "mset (all_hands s') = mset ordered_deck" and "seated s'"
    and "discarded_cards s' = []" and "current_pile s' = []"
    and "winners s' = []" and "active_players s' = player_order s'"
proof -
  from start_game_Inr [OF assms(3)] obtain dealt found where
    d: "deal (map fst (players s)) 0 deck (players s) = Inr dealt"
    and s': "s' = s\<lparr>players := sort_all dealt, active_players := player_order s,
              current_player_idx := (case found of None \<Rightarrow> current_player_idx s | Some i \<Rightarrow> i),
              game_started := True, game_first_card_played := False,
              original_players := player_order s,
              connected_players := set (player_order s)\<rparr>"
    by blast
  from assms(1) have dk: "distinct (map fst (players s))"
    and po: "player_order s = map fst (players s)"
    and em: "list_all (\<lambda>(name, h). h = []) (players s)"
    and rest: "discarded_cards s = []" "current_pile s = []" "winners s = []"
    by (auto simp: lobby_def seated_def)
  from em have "concat (map snd (players s)) = []" by (auto simp: list_all_iff)
  with deal_mset [OF dk d] have "mset (concat (map snd dealt)) = mset deck" by simp
  with assms(2) show "mset (all_hands s') = mset ordered_deck"
    by (simp add: all_hands_def s' sort_all_mset is_shuffle_def)
  from deal_keys [OF d] dk po show "seated s'"
    by (simp add: seated_def s' sort_all_keys)
  from rest show "discarded_cards s' = []" "current_pile s' = []" "winners s' = []"
    by (simp_all add: s')
  show "active_players s' = player_order s'" by (simp add: s')
qed

text \<open>
  Claim C5. On a session whose seating order lists the keys of \<open>players\<close>,
  \<open>start_game\<close> raises \<open>ValueError\<close> (\<open>Need at least 2 players\<close>) exactly when the
  session has fewer than two members, and it raises nothing else: with two members or
  more it returns, whatever the other fields are, \<open>game_started\<close> included.
\<close>

theorem start_game_needs_two_players:
  assumes "seated s"
  shows "(start_game s deck = Inl (ValueError ''Need at least 2 players''))
           = (length (players s) < 2)
         \<and> isl (start_game s deck) = (length (players s) < 2)"
proof (cases "length (players s) < 2")
  case True
  then show ?thesis by (simp add: start_game_def)
next
  case False
  then have "2 \<le> length (players s)" by simp
  from start_game_total [OF assms this, of deck] obtain s' where "start_game s deck = Inr s'"
    by blast
  with False show ?thesis by simp
qed

theorem start_game_needs_two_players_witness:
  "seated started_AB \<and> game_started started_AB \<and> 2 \<le> length (players started_AB)
   \<and> \<not> isl (start_game started_AB deck_AB)
   \<and> seated (new_session ''GAME01'' ''A'')
   \<and> start_game (new_session ''GAME01'' ''A'') deck_AB
       = Inl (ValueError ''Need at least 2 players'')"
proof -
  have h1: "seated started_AB" by code_simp
  have h2: "game_started started_AB" by code_simp
  have h3: "2 \<le> length (players started_AB)" by code_simp
  have h4: "seated (new_session ''GAME01'' ''A'')" by code_simp
  have h5: "length (players (new_session ''GAME01'' ''A'')) < 2" by code_simp
  from start_game_needs_two_players [OF h1, of deck_AB]
    start_game_needs_two_players [OF h4, of deck_AB] h1 h2 h3 h4 h5
  show ?thesis by simp
qed

text \<open>
  Claim C9. From a lobby of at least two players and any rearrangement of the deck,
  \<open>start_game\<close> returns a session whose current player holds the Ace of Spades, and
  exactly one entry of \<open>players\<close> holds it.
\<close>

theorem start_game_current_player_holds_ace:
  assumes "lobby s" and "2 \<le> length (players s)" and "is_shuffle deck"
  shows "\<exists>s' p. start_game s deck = Inr s' \<and> current_player s' = Inr p
           \<and> ace_of_spades \<in> set (hand_of s' p)
           \<and> length (filter (\<lambda>(n, h). ace_of_spades \<in> set h) (players s')) = 1"
proof -
  from assms(1) have se: "seated s" by (simp add: lobby_def)
  from start_game_total [OF se assms(2), of deck] obtain s' where st: "start_game s deck = Inr s'"
    by blast
  from start_game_Inr [OF st] obtain dealt found where
    f: "find_ace (sort_all dealt) 0 (player_order s) = Inr found"
    and s': "s' = s\<lparr>players := sort_all dealt, active_players := player_order s,
              current_player_idx := (case found of None \<Rightarrow> current_player_idx s | Some i \<Rightarrow> i),
              game_started := True, game_first_card_played := False,
              original_players := player_order s,
              connected_players := set (player_order s)\<rparr>"
    by blast
  note dd = start_game_deals_deck [OF assms(1,3) st]
  from dd(2) have dk: "distinct (map fst (players s'))"
    and po: "player_order s' = map fst (players s')"
    by (auto simp: seated_def)
  have pl: "players s' = sort_all dealt" and pos: "player_order s' = player_order s"
    by (simp_all add: s')
  from dd(1) have "set (all_hands s') = set ordered_deck" by (rule mset_eq_setD)
  then have ain: "ace_of_spades \<in> set (concat (map snd (players s')))"
    by (simp add: all_hands_def ordered_deck_complete)
  from dd(1) ordered_deck_distinct have "distinct (all_hands s')"
    by (metis mset_eq_imp_distinct_iff)
  then have one: "length (filter (\<lambda>(n, h). ace_of_spades \<in> set h) (players s')) = 1"
    using ain unfolding all_hands_def by (rule single_holder)
  from ain obtain n h where nh: "(n, h) \<in> set (players s')" and ah: "ace_of_spades \<in> set h"
    by auto
  from nh dk have mn: "map_of (players s') n = Some h" by simp
  from nh po have nin: "n \<in> set (player_order s')" by force
  have "found \<noteq> None"
  proof
    assume "found = None"
    with f have "find_ace (players s') 0 (player_order s') = Inr None" by (simp add: pl pos)
    from find_ace_None [OF this nin mn] ah show False by simp
  qed
  then obtain j where j: "found = Some j" by auto
  with f have "find_ace (players s') 0 (player_order s') = Inr (Some j)" by (simp add: pl pos)
  from find_ace_Some [OF this] obtain h' where jl: "j < length (player_order s')"
    and mh: "map_of (players s') (player_order s' ! j) = Some h'"
    and ah': "ace_of_spades \<in> set h'"
    by auto
  from j have idx: "current_player_idx s' = j" by (simp add: s')
  from jl dd(6) idx have "current_player s' = Inr (player_order s' ! j)"
    by (auto simp: current_player_def)
  moreover from mh ah' have "ace_of_spades \<in> set (hand_of s' (player_order s' ! j))"
    by (simp add: hand_of_def)
  ultimately show ?thesis using st one by blast
qed

theorem start_game_current_player_holds_ace_witness:
  "lobby lobby_AB \<and> 2 \<le> length (players lobby_AB) \<and> is_shuffle deck_AB
   \<and> start_game lobby_AB deck_AB = Inr started_AB
   \<and> current_player started_AB = Inr ''A''
   \<and> ace_of_spades \<in> set (hand_of started_AB ''A'')
   \<and> length (filter (\<lambda>(n, h). ace_of_spades \<in> set h) (players started_AB)) = 1"
proof -
  have h1: "lobby lobby_AB" by code_simp
  have h2: "2 \<le> length (players lobby_AB)" by code_simp
  have h3: "is_shuffle deck_AB" by code_simp
  note h4 = start_game_AB
  have h5: "current_player started_AB = Inr ''A''" by code_simp
  from start_game_current_player_holds_ace [OF h1 h2 h3] h4 h5
  have "ace_of_spades \<in> set (hand_of started_AB ''A'')
        \<and> length (filter (\<lambda>(n, h). ace_of_spades \<in> set h) (players started_AB)) = 1"
    by auto
  with h1 h2 h3 h4 h5 show ?thesis by simp
qed

section \<open>Resolving a round\<close>

lemma foldl_max_key:
  fixes k :: "'a \<Rightarrow> int"
  shows "foldl (\<lambda>best y. if k best < k y then y else best) x rest \<in> set (x # rest)
   \<and> (\<forall>y \<in> set (x # rest). k y \<le> k (foldl (\<lambda>best y. if k best < k y then y else best) x rest))"
proof (induction rest arbitrary: x)
  case Nil
  then show ?case by simp
next
  case (Cons z rest)
  let ?f = "\<lambda>best y. if k best < k y then y else best"
  show ?case
  proof (cases "k x < k z")
    case True
    with Cons.IH [of z] show ?thesis by force
  next
    case False
    with Cons.IH [of x] show ?thesis by force
  qed
qed

lemma py_max_key_Inr:
  fixes k :: "'a \<Rightarrow> int"
  assumes "py_max_key k xs = Inr m"
  shows "m \<in> set xs" and "\<And>y. y \<in> set xs \<Longrightarrow> k y \<le> k m"
proof -
  from assms obtain x rest where xs: "xs = x # rest"
    and m: "m = foldl (\<lambda>best y. if k best < k y then y else best) x rest"
    by (auto simp: py_max_key_def split: list.splits)
  from foldl_max_key [of k x rest] show "m \<in> set xs" by (simp add: xs m)
  fix y assume "y \<in> set xs"
  with foldl_max_key [of k x rest] show "k y \<le> k m" by (auto simp: xs m)
qed

lemma py_max_key_total: "xs \<noteq> [] \<Longrightarrow> \<exists>m. py_max_key k xs = Inr m"
  by (cases xs) (simp_all add: py_max_key_def)

lemma resolve_round_Inr:
  assumes "resolve_round s b = Inr s'" and "current_pile s \<noteq> []"
  shows "\<exists>wp s2 s4 s5.
      py_max_key (\<lambda>x. card_value (snd x))
        (filter (\<lambda>(pname, pcard). Some (suit pcard) = original_suit s) (current_pile s)) = Inr wp
    \<and> collect_pile (s\<lparr>resolved_pile := current_pile s, resolved_winner := Some (fst wp),
                       suit_was_broken := b\<rparr>) (fst wp) b = Inr s2
    \<and> check_for_winners (s2\<lparr>current_pile := [], current_suit := None,
                             original_suit := None, round_in_progress := False\<rparr>) = Inr s4
    \<and> set_next_leader s4 (fst wp) = Inr s5
    \<and> check_game_over s5 = Inr s'"
  using assms by (simp add: resolve_round_def Let_def ebind_eq_Inr)

lemma check_for_winners_loop_total:
  "set ps \<subseteq> fst ` set (players s) \<Longrightarrow> \<exists>s'. check_for_winners_loop ps s = Inr s'"
proof (induction ps arbitrary: s)
  case Nil
  then show ?case by simp
next
  case (Cons p ps)
  then have "p \<in> fst ` set (players s)" by simp
  from get_hand_key [OF this] obtain h where h: "get_hand (players s) p = Inr h" by blast
  from Cons.prems have a: "set ps \<subseteq> fst ` set (players s)" by simp
  then have "set ps \<subseteq> fst ` set (players (s\<lparr>winners := winners s @ [p],
                 active_players := remove1 p (active_players s)\<rparr>))" by simp
  from Cons.IH [OF this] Cons.IH [OF a] h show ?case by simp
qed

lemma check_for_winners_loop_active:
  "check_for_winners_loop ps s = Inr s' \<Longrightarrow> set (active_players s') \<subseteq> set (active_players s)"
proof (induction ps arbitrary: s)
  case Nil
  then show ?case by simp
next
  case (Cons p ps)
  from Cons.prems obtain h where "get_hand (players s) p = Inr h" and
    r: "(if length h = 0 \<and> p \<notin> set (winners s)
         then check_for_winners_loop ps
                (s\<lparr>winners := winners s @ [p],
                   active_players := remove1 p (active_players s)\<rparr>)
         else check_for_winners_loop ps s) = Inr s'"
    by (auto simp: ebind_eq_Inr)
  show ?case
  proof (cases "length h = 0 \<and> p \<notin> set (winners s)")
    case True
    with r have "check_for_winners_loop ps
                (s\<lparr>winners := winners s @ [p],
                   active_players := remove1 p (active_players s)\<rparr>) = Inr s'"
      by (simp split: if_splits)
    from Cons.IH [OF this] set_remove1_subset [of p "active_players s"]
    show ?thesis by auto
  next
    case False
    with r have "check_for_winners_loop ps s = Inr s'" by (simp split: if_splits)
    then show ?thesis by (rule Cons.IH)
  qed
qed

lemma players_with_cards_total:
  "set ps \<subseteq> fst ` set hs \<Longrightarrow> \<exists>r. players_with_cards hs ps = Inr r"
proof (induction ps)
  case Nil
  then show ?case by simp
next
  case (Cons p ps)
  then have "p \<in> fst ` set hs" by simp
  from get_hand_key [OF this] obtain h where "get_hand hs p = Inr h" by blast
  with Cons show ?case by auto
qed

lemma check_game_over_total:
  "set (active_players s) \<subseteq> fst ` set (players s) \<Longrightarrow> \<exists>s'. check_game_over s = Inr s'"
  using players_with_cards_total [of "active_players s" "players s"]
  by (auto simp: check_game_over_def)

lemma next_clockwise_total: "\<exists>s'. next_clockwise s w is = Inr s'"
proof (induction "is")
  case Nil
  then show ?case by simp
next
  case (Cons i rest)
  show ?case
  proof (cases "player_order s ! ((w + i) mod length (player_order s)) \<in> set (active_players s)")
    case True
    from list_index_mem [OF this] show ?thesis using True by (auto simp: Let_def)
  next
    case False
    with Cons show ?thesis by (simp add: Let_def)
  qed
qed

lemma set_next_leader_total:
  assumes "w \<in> set (active_players s) \<or> w \<in> set (player_order s)"
  shows "\<exists>s'. set_next_leader s w = Inr s'"
proof (cases "w \<in> set (active_players s)")
  case True
  from list_index_mem [OF this] True show ?thesis by (auto simp: set_next_leader_def)
next
  case False
  with assms have "w \<in> set (player_order s)" by simp
  from list_index_mem [OF this] obtain i where "list_index (player_order s) w = Inr i" by blast
  with False next_clockwise_total [of s i "[1 ..< length (player_order s)]"]
  show ?thesis by (auto simp: set_next_leader_def)
qed

lemma collect_pile_Inr:
  assumes "collect_pile s w b = Inr s2"
  shows "b \<Longrightarrow> \<exists>h. map_of (players s) w = Some h \<and>
           s2 = s\<lparr>players := AList.update w (sort_hand (h @ map snd (current_pile s))) (players s),
                  last_action := Some (w @ '' picks up the pile!'')\<rparr>"
    and "\<not> b \<Longrightarrow> s2 = s\<lparr>discarded_cards := discarded_cards s @ map snd (current_pile s),
               last_action := Some (''Cards discarded - '' @ w @ '' leads next!'')\<rparr>"
  using assms by (auto simp: collect_pile_def ebind_eq_Inr get_hand_eq_Inr)

lemma collect_pile_fields:
  assumes "collect_pile s w b = Inr s2"
  shows "active_players s2 = active_players s" and "winners s2 = winners s"
    and "current_pile s2 = current_pile s" and "player_order s2 = player_order s"
    and "map fst (players s2) = map fst (players s)"
    and "resolved_winner s2 = resolved_winner s"
    and "round_in_progress s2 = round_in_progress s"
    and "current_player_idx s2 = current_player_idx s"
    and "finished s2 = finished s" and "kazhutha s2 = kazhutha s"
    and "suit_was_broken s2 = suit_was_broken s"
  using collect_pile_Inr [OF assms]
  by (cases b; auto simp: update_present_keys)+

lemma check_for_winners_total:
  "set (active_players s) \<subseteq> fst ` set (players s) \<Longrightarrow> \<exists>s'. check_for_winners s = Inr s'"
  unfolding check_for_winners_def by (rule check_for_winners_loop_total)

lemma check_for_winners_active:
  "check_for_winners s = Inr s' \<Longrightarrow> set (active_players s') \<subseteq> set (active_players s)"
  unfolding check_for_winners_def by (rule check_for_winners_loop_active)

lemma collect_pile_total:
  assumes "w \<in> fst ` set (players s)"
  shows "\<exists>s2. collect_pile s w b = Inr s2"
proof -
  from get_hand_key [OF assms] obtain h where "get_hand (players s) w = Inr h" by blast
  then show ?thesis by (cases b) (simp_all add: collect_pile_def)
qed

text \<open>
  Claim C3. Let the pile be non-empty, its first card of the suit recorded as
  \<open>original_suit\<close>, and let the seating order list the keys of \<open>players\<close> and contain
  the active players and the players of the pile. Then \<open>_resolve_round\<close> returns; the
  winner it records played a card of the round-opening suit whose value is maximal
  among the pile's cards of that suit; with \<open>suit_broken\<close> the winner's hand becomes
  the sorted old hand extended by all cards of the pile and nothing is discarded,
  otherwise the hands are unchanged and all cards of the pile are appended to
  \<open>discarded_cards\<close>; and the pile is empty afterwards.
\<close>

theorem resolve_round_winner:
  assumes "current_pile s \<noteq> []"
    and "original_suit s = Some (suit (snd (hd (current_pile s))))"
    and "seated s"
    and "set (active_players s) \<subseteq> set (player_order s)"
    and "fst ` set (current_pile s) \<subseteq> set (player_order s)"
  shows "\<exists>s' w c. resolve_round s b = Inr s' \<and> resolved_winner s' = Some w
      \<and> (w, c) \<in> set (current_pile s) \<and> Some (suit c) = original_suit s
      \<and> (\<forall>(q, c') \<in> set (current_pile s).
            Some (suit c') = original_suit s \<longrightarrow> card_value c' \<le> card_value c)
      \<and> (if b
          then players s' = AList.update w (sort_hand (hand_of s w @ map snd (current_pile s)))
                              (players s)
               \<and> discarded_cards s' = discarded_cards s
          else players s' = players s
               \<and> discarded_cards s' = discarded_cards s @ map snd (current_pile s))
      \<and> current_pile s' = []"
proof -
  let ?own = "filter (\<lambda>(pname, pcard). Some (suit pcard) = original_suit s) (current_pile s)"
  from assms(3) have keys: "set (player_order s) = fst ` set (players s)"
    by (simp add: seated_def)
  from assms(1,2) have "hd (current_pile s) \<in> set ?own"
    by (cases "current_pile s") (auto split: prod.splits)
  then have "?own \<noteq> []" by (metis empty_iff list.set(1))
  from py_max_key_total [OF this] obtain wp where
    wp: "py_max_key (\<lambda>x. card_value (snd x)) ?own = Inr wp" by blast
  obtain w c where wc: "wp = (w, c)" by (cases wp)
  from py_max_key_Inr(1) [OF wp] wc have win: "(w, c) \<in> set (current_pile s)"
    and cs: "Some (suit c) = original_suit s"
    by auto
  have mx: "card_value c' \<le> card_value c"
    if "(q, c') \<in> set (current_pile s)" and "Some (suit c') = original_suit s" for q c'
  proof -
    from that have "(q, c') \<in> set ?own" by simp
    from py_max_key_Inr(2) [OF wp this] wc show ?thesis by simp
  qed
  from win assms(5) have wpo: "w \<in> set (player_order s)" by force
  with keys have wk: "w \<in> fst ` set (players s)" by simp
  from get_hand_key [OF this] obtain h where h: "get_hand (players s) w = Inr h" by blast
  define s1 where "s1 = s\<lparr>resolved_pile := current_pile s, resolved_winner := Some w,
                         suit_was_broken := b\<rparr>"
  from wk have "w \<in> fst ` set (players s1)" by (simp add: s1_def)
  from collect_pile_total [OF this] obtain s2 where c2: "collect_pile s1 w b = Inr s2"
    by blast
  note f2 = collect_pile_fields [OF c2]
  define s3 where "s3 = s2\<lparr>current_pile := [], current_suit := None,
                           original_suit := None, round_in_progress := False\<rparr>"
  from f2(5) have "map fst (players s3) = map fst (players s)" by (simp add: s3_def s1_def)
  then have "set (map fst (players s3)) = set (map fst (players s))" by simp
  then have k3: "fst ` set (players s3) = fst ` set (players s)" by (simp only: set_map)
  have a3: "active_players s3 = active_players s" by (simp add: s3_def f2 s1_def)
  from a3 k3 assms(4) keys have "set (active_players s3) \<subseteq> fst ` set (players s3)" by simp
  from check_for_winners_total [OF this] obtain s4 where c4: "check_for_winners s3 = Inr s4"
    by blast
  note f4 = check_for_winners_fields [OF c4]
  from wpo have "w \<in> set (player_order s4)" by (simp add: f4 s3_def f2 s1_def)
  then have "w \<in> set (active_players s4) \<or> w \<in> set (player_order s4)" by simp
  from set_next_leader_total [OF this] obtain s5 where c5: "set_next_leader s4 w = Inr s5"
    by blast
  note f5 = set_next_leader_fields [OF c5]
  from check_for_winners_active [OF c4] a3 assms(4) keys k3
  have "set (active_players s5) \<subseteq> fst ` set (players s5)"
    by (simp add: f5 f4)
  from check_game_over_total [OF this] obtain s' where c6: "check_game_over s5 = Inr s'"
    by blast
  note f6 = check_game_over_fields [OF c6]
  from assms(1) wp wc c2 c4 c5 c6 have res: "resolve_round s b = Inr s'"
    by (simp add: resolve_round_def Let_def s1_def s3_def)
  have rw: "resolved_winner s' = Some w"
    by (simp add: f6 f5 f4 s3_def f2 s1_def)
  have pile: "current_pile s' = []"
    by (simp add: f6 f5 f4 s3_def)
  have pl: "players s' = players s2" and dc: "discarded_cards s' = discarded_cards s2"
    by (simp_all add: f6 f5 f4 s3_def)
  have upd: "if b
          then players s' = AList.update w (sort_hand (hand_of s w @ map snd (current_pile s)))
                              (players s)
               \<and> discarded_cards s' = discarded_cards s
          else players s' = players s
               \<and> discarded_cards s' = discarded_cards s @ map snd (current_pile s)"
  proof (cases b)
    case True
    from collect_pile_Inr(1) [OF c2 True] hand_of_get [OF h] h show ?thesis
      by (auto simp: pl dc True s1_def get_hand_eq_Inr)
  next
    case False
    from collect_pile_Inr(2) [OF c2 False] show ?thesis
      by (simp add: pl dc False s1_def)
  qed
  from res rw win cs mx upd pile show ?thesis by blast
qed

theorem resolve_round_winner_witness:
  "current_pile answered_AB \<noteq> []
   \<and> original_suit answered_AB = Some (suit (snd (hd (current_pile answered_AB))))
   \<and> seated answered_AB
   \<and> set (active_players answered_AB) \<subseteq> set (player_order answered_AB)
   \<and> fst ` set (current_pile answered_AB) \<subseteq> set (player_order answered_AB)
   \<and> resolve_round answered_AB True = Inr after_two_AB
   \<and> resolved_winner after_two_AB = Some ''A''
   \<and> current_pile after_two_AB = []"
proof -
  have h1: "current_pile answered_AB \<noteq> []" by code_simp
  have h2: "original_suit answered_AB = Some (suit (snd (hd (current_pile answered_AB))))"
    by code_simp
  have h3: "seated answered_AB" by code_simp
  have h4: "set (active_players answered_AB) \<subseteq> set (player_order answered_AB)" by code_simp
  have h5: "fst ` set (current_pile answered_AB) \<subseteq> set (player_order answered_AB)"
    by code_simp
  have h6: "resolve_round answered_AB True = Inr after_two_AB" by code_simp
  have h7: "resolved_winner after_two_AB = Some ''A''" by code_simp
  from resolve_round_winner [OF h1 h2 h3 h4 h5, of True] h6
  have "current_pile after_two_AB = []" by auto
  with h1 h2 h3 h4 h5 h6 h7 show ?thesis by simp
qed

section \<open>Conservation of the cards\<close>

lemma play_card_cases:
  assumes "play_card s p d = Inr (s', ok, m)"
  shows "(\<not> ok \<and> s' = s)
    \<or> (\<exists>c h t. card_of_dict d = Inr c \<and> get_hand (players s) p = Inr h \<and> c \<in> set h
          \<and> p \<in> set (active_players s) \<and> current_player s = Inr p
          \<and> game_started s \<and> \<not> finished s
          \<and> t = open_round (if \<not> game_first_card_played s
                             then s\<lparr>game_first_card_played := True\<rparr> else s) c
          \<and> ((\<not> ok \<and> s' = t)
              \<or> (ok \<and> m = None \<and> finish_play (put_on_pile t p h c) c = Inr s')))"
  using assms
  by (auto simp: play_card_def ebind_eq_Inr Let_def commit_play_def
      split: if_splits option.splits)

lemma open_round_fields:
  shows "players (open_round s c) = players s"
    and "current_pile (open_round s c) = current_pile s"
    and "discarded_cards (open_round s c) = discarded_cards s"
    and "winners (open_round s c) = winners s"
    and "active_players (open_round s c) = active_players s"
    and "player_order (open_round s c) = player_order s"
    and "current_player_idx (open_round s c) = current_player_idx s"
    and "round_in_progress (open_round s c) = (current_pile s = [] \<or> round_in_progress s)"
    and "game_started (open_round s c) = game_started s"
    and "finished (open_round s c) = finished s"
  by (simp_all add: open_round_def)

lemma put_on_pile_fields:
  shows "players (put_on_pile s p h c) = AList.update p (remove1 c h) (players s)"
    and "current_pile (put_on_pile s p h c) = current_pile s @ [(p, c)]"
    and "discarded_cards (put_on_pile s p h c) = discarded_cards s"
    and "winners (put_on_pile s p h c) = winners s"
    and "active_players (put_on_pile s p h c) = active_players s"
    and "player_order (put_on_pile s p h c) = player_order s"
    and "current_player_idx (put_on_pile s p h c) = current_player_idx s"
    and "round_in_progress (put_on_pile s p h c) = round_in_progress s"
    and "original_suit (put_on_pile s p h c) = original_suit s"
  by (simp_all add: put_on_pile_def)

lemma resolve_round_cards:
  assumes "resolve_round s b = Inr s'" and "distinct (map fst (players s))"
  shows "mset (all_hands s') + mset (discarded_cards s') + mset (map snd (current_pile s'))
         = mset (all_hands s) + mset (discarded_cards s) + mset (map snd (current_pile s))"
    and "map fst (players s') = map fst (players s)"
    and "player_order s' = player_order s"
proof -
  have "(mset (all_hands s') + mset (discarded_cards s') + mset (map snd (current_pile s'))
         = mset (all_hands s) + mset (discarded_cards s) + mset (map snd (current_pile s)))
    \<and> map fst (players s') = map fst (players s) \<and> player_order s' = player_order s"
  proof (cases "current_pile s = []")
    case True
    with assms(1) show ?thesis by (simp add: resolve_round_def)
  next
    case False
    from resolve_round_Inr [OF assms(1) False] obtain wp :: "string \<times> card" and s2 s4 s5 where
      c2: "collect_pile (s\<lparr>resolved_pile := current_pile s, resolved_winner := Some (fst wp),
                       suit_was_broken := b\<rparr>) (fst wp) b = Inr s2"
      and c4: "check_for_winners (s2\<lparr>current_pile := [], current_suit := None,
                             original_suit := None, round_in_progress := False\<rparr>) = Inr s4"
      and c5: "set_next_leader s4 (fst wp) = Inr s5"
      and c6: "check_game_over s5 = Inr s'"
      by blast
    note f4 = check_for_winners_fields [OF c4]
    note f5 = set_next_leader_fields [OF c5]
    note f6 = check_game_over_fields [OF c6]
    note f2 = collect_pile_fields [OF c2]
    have pl: "players s' = players s2" and dc: "discarded_cards s' = discarded_cards s2"
      and pile: "current_pile s' = []" and po: "player_order s' = player_order s"
      by (simp_all add: f6 f5 f4 f2)
    have "mset (all_hands s2) + mset (discarded_cards s2)
          = mset (all_hands s) + mset (discarded_cards s) + mset (map snd (current_pile s))"
    proof (cases b)
      case True
      from collect_pile_Inr(1) [OF c2 True] obtain h where
        h: "map_of (players s) (fst wp) = Some h"
        and s2: "players s2 = AList.update (fst wp) (sort_hand (h @ map snd (current_pile s)))
                   (players s)"
        and "discarded_cards s2 = discarded_cards s"
        by auto
      from mset_hands_update [OF assms(2) h, of "sort_hand (h @ map snd (current_pile s))"]
      have "mset (all_hands s2) = mset (all_hands s) + mset (map snd (current_pile s))"
        by (simp add: all_hands_def s2)
      with \<open>discarded_cards s2 = discarded_cards s\<close> show ?thesis by simp
    next
      case False
      from collect_pile_Inr(2) [OF c2 False] show ?thesis by (simp add: all_hands_def)
    qed
    with pl dc pile po f2(5) show ?thesis by (simp add: all_hands_def)
  qed
  then show "mset (all_hands s') + mset (discarded_cards s') + mset (map snd (current_pile s'))
         = mset (all_hands s) + mset (discarded_cards s) + mset (map snd (current_pile s))"
    and "map fst (players s') = map fst (players s)"
    and "player_order s' = player_order s"
    by simp_all
qed

lemma finish_play_cards:
  assumes "finish_play s c = Inr s'" and "distinct (map fst (players s))"
  shows "mset (all_hands s') + mset (discarded_cards s') + mset (map snd (current_pile s'))
         = mset (all_hands s) + mset (discarded_cards s) + mset (map snd (current_pile s))"
    and "map fst (players s') = map fst (players s)"
    and "player_order s' = player_order s"
proof -
  consider (r) b where "resolve_round s b = Inr s'"
    | (a) "advance_to_next_active_player s = Inr s'"
    using assms(1) by (auto simp: finish_play_def Let_def split: if_splits)
  then have "(mset (all_hands s') + mset (discarded_cards s') + mset (map snd (current_pile s'))
         = mset (all_hands s) + mset (discarded_cards s) + mset (map snd (current_pile s)))
    \<and> map fst (players s') = map fst (players s) \<and> player_order s' = player_order s"
  proof cases
    case r
    from resolve_round_cards [OF r assms(2)] show ?thesis by simp
  next
    case a
    from advance_fields [OF a] show ?thesis by (simp add: all_hands_def)
  qed
  then show "mset (all_hands s') + mset (discarded_cards s') + mset (map snd (current_pile s'))
         = mset (all_hands s) + mset (discarded_cards s) + mset (map snd (current_pile s))"
    and "map fst (players s') = map fst (players s)"
    and "player_order s' = player_order s"
    by simp_all
qed

lemma play_card_cards:
  assumes "play_card s p d = Inr (s', ok, m)" and "distinct (map fst (players s))"
  shows "mset (all_hands s') + mset (discarded_cards s') + mset (map snd (current_pile s'))
         = mset (all_hands s) + mset (discarded_cards s) + mset (map snd (current_pile s))"
    and "map fst (players s') = map fst (players s)"
    and "player_order s' = player_order s"
proof -
  let ?goal = "(mset (all_hands s') + mset (discarded_cards s') + mset (map snd (current_pile s'))
         = mset (all_hands s) + mset (discarded_cards s) + mset (map snd (current_pile s)))
    \<and> map fst (players s') = map fst (players s) \<and> player_order s' = player_order s"
  from play_card_cases [OF assms(1)] consider (same) "s' = s"
    | (opened) c where "s' = open_round (if \<not> game_first_card_played s
                             then s\<lparr>game_first_card_played := True\<rparr> else s) c"
    | (played) c h t where "get_hand (players s) p = Inr h" "c \<in> set h"
        "t = open_round (if \<not> game_first_card_played s
                             then s\<lparr>game_first_card_played := True\<rparr> else s) c"
        "finish_play (put_on_pile t p h c) c = Inr s'"
    by blast
  then have ?goal
  proof cases
    case same
    then show ?thesis by simp
  next
    case opened
    then show ?thesis by (simp add: open_round_fields all_hands_def)
  next
    case played
    have t: "players t = players s" "current_pile t = current_pile s"
      "discarded_cards t = discarded_cards s" "player_order t = player_order s"
      by (simp_all add: played(3) open_round_fields)
    from played(1) have mh: "map_of (players s) p = Some h" by (simp add: get_hand_eq_Inr)
    let ?u = "put_on_pile t p h c"
    have e: "mset (concat (map snd (AList.update p (remove1 c h) (players s)))) + mset h
          = mset (concat (map snd (players s))) + mset (remove1 c h)"
      using assms(2) mh by (rule mset_hands_update)
    from played(2) have "mset h = mset (remove1 c h) + {#c#}" by simp
    with e have "mset (concat (map snd (AList.update p (remove1 c h) (players s)))) + {#c#}
             + mset (remove1 c h)
          = mset (concat (map snd (players s))) + mset (remove1 c h)"
      by (simp only: ac_simps)
    then have "mset (concat (map snd (AList.update p (remove1 c h) (players s)))) + {#c#}
          = mset (concat (map snd (players s)))"
      by (simp only: add_right_cancel)
    then have u: "mset (all_hands ?u) + mset (discarded_cards ?u) + mset (map snd (current_pile ?u))
         = mset (all_hands s) + mset (discarded_cards s) + mset (map snd (current_pile s))"
      by (simp add: put_on_pile_fields t all_hands_def)
    from mh have uk: "map fst (players ?u) = map fst (players s)"
      by (simp add: put_on_pile_fields t update_present_keys)
    with assms(2) have "distinct (map fst (players ?u))" by simp
    from finish_play_cards [OF played(4) this] u uk show ?thesis
      by (simp add: put_on_pile_fields t)
  qed
  then show "mset (all_hands s') + mset (discarded_cards s') + mset (map snd (current_pile s'))
         = mset (all_hands s) + mset (discarded_cards s) + mset (map snd (current_pile s))"
    and "map fst (players s') = map fst (players s)"
    and "player_order s' = player_order s"
    by simp_all
qed

lemma take_hand_failure:
  "take_hand_from_left s p = Inr (s', False, msg, t) \<Longrightarrow> s' = s"
  by (auto simp: take_hand_from_left_def ebind_eq_Inr split: if_splits option.splits)

lemma take_hand_cards:
  assumes "take_hand_from_left s p = Inr (s', True, msg, t)" and "distinct (map fst (players s))"
  shows "mset (all_hands s') = mset (all_hands s)"
    and "discarded_cards s' = discarded_cards s" and "current_pile s' = current_pile s"
    and "map fst (players s') = map fst (players s)" and "player_order s' = player_order s"
proof -
  from take_hand_success [OF assms(1)] obtain l lh s1 where
    l: "get_player_on_left s p = Some l"
    and lh: "get_hand (players s) l = Inr lh"
    and tr: "take_hand_transfer s p l lh = Inr s1" and fin: "take_hand_finish s1 p l = Inr s'"
    by blast
  note lp = get_player_on_left_Some [OF l]
  note ff = take_hand_finish_Inr [OF fin]
  from take_hand_transfer_hands [OF tr lp(1) lh assms(2)] ff(1)
  show "mset (all_hands s') = mset (all_hands s)" by (simp add: all_hands_def)
  from take_hand_transfer_Inr [OF tr lp(1)] obtain own where
    own: "get_hand (players s) p = Inr own"
    and s1: "s1 = s\<lparr>players := AList.update p (sort_hand (own @ lh))
                          (AList.update l [] (AList.update p (own @ lh) (players s))),
            taken_hand_cards := lh, taken_hand_from := Some l, taken_hand_by := Some p,
            winners := winners s @ [l], active_players := remove1 l (active_players s)\<rparr>"
    by blast
  from s1 ff show "discarded_cards s' = discarded_cards s" "current_pile s' = current_pile s"
    "player_order s' = player_order s"
    by simp_all
  from own lh have "p \<in> fst ` set (players s)" "l \<in> fst ` set (players s)"
    by (auto simp: get_hand_eq_Inr dest!: map_of_SomeD intro: rev_image_eqI)
  then have "map fst (AList.update p (sort_hand (own @ lh))
                          (AList.update l [] (AList.update p (own @ lh) (players s))))
             = map fst (players s)"
    by (simp add: update_keys)
  with s1 ff(1) show "map fst (players s') = map fst (players s)" by simp
qed

text \<open>
  Claim C2. After a \<open>start_game\<close> that returns from a lobby, with any rearrangement
  of the deck, the cards of all hands are the 52 cards of the deck, each once; and the
  invariant \<open>conserved\<close> (hands, discarded cards and pile together are one deck), which
  holds then, is kept by every \<open>play_card\<close> and every \<open>take_hand_from_left\<close> that
  reports success, on a session whose seating order lists the distinct keys of
  \<open>players\<close>.
\<close>

theorem cards_conserved:
  "(lobby s0 \<and> is_shuffle deck \<and> start_game s0 deck = Inr s1
      \<longrightarrow> mset (all_hands s1) = mset ordered_deck \<and> distinct (all_hands s1)
          \<and> length (all_hands s1) = 52 \<and> set (all_hands s1) = UNIV
          \<and> conserved s1 \<and> seated s1)
   \<and> (conserved s \<and> seated s \<and> play_card s p d = Inr (s', True, m)
      \<longrightarrow> conserved s' \<and> seated s')
   \<and> (conserved s \<and> seated s \<and> take_hand_from_left s q = Inr (s'', True, msg, t)
      \<longrightarrow> conserved s'' \<and> seated s'')"
proof (intro conjI impI)
  assume a: "lobby s0 \<and> is_shuffle deck \<and> start_game s0 deck = Inr s1"
  then have l: "lobby s0" and sh: "is_shuffle deck" and st: "start_game s0 deck = Inr s1"
    by simp_all
  note dd = start_game_deals_deck [OF l sh st]
  show m: "mset (all_hands s1) = mset ordered_deck" by (rule dd(1))
  from m ordered_deck_distinct show "distinct (all_hands s1)"
    by (metis mset_eq_imp_distinct_iff)
  from m have "length (all_hands s1) = length ordered_deck" by (rule mset_eq_length)
  then show "length (all_hands s1) = 52" by (simp add: ordered_deck_length)
  from m have "set (all_hands s1) = set ordered_deck" by (rule mset_eq_setD)
  then show "set (all_hands s1) = UNIV" using ordered_deck_complete by auto
  from m dd(3,4) show "conserved s1" by (simp add: conserved_def)
  show "seated s1" by (rule dd(2))
next
  assume a: "conserved s \<and> seated s \<and> play_card s p d = Inr (s', True, m)"
  then have c: "conserved s" and se: "seated s" and pc: "play_card s p d = Inr (s', True, m)"
    by simp_all
  from se have dk: "distinct (map fst (players s))" by (simp add: seated_def)
  note pp = play_card_cards [OF pc dk]
  from c pp(1) show "conserved s'" by (simp add: conserved_def)
  from se pp(2,3) show "seated s'" by (simp add: seated_def)
next
  assume a: "conserved s \<and> seated s \<and> take_hand_from_left s q = Inr (s'', True, msg, t)"
  then have c: "conserved s" and se: "seated s"
    and th: "take_hand_from_left s q = Inr (s'', True, msg, t)"
    by simp_all
  from se have dk: "distinct (map fst (players s))" by (simp add: seated_def)
  note tt = take_hand_cards [OF th dk]
  from c tt(1,2,3) show "conserved s''" by (simp add: conserved_def)
  from se tt(4,5) show "seated s''" by (simp add: seated_def)
qed

theorem cards_conserved_witness:
  "lobby lobby_AB \<and> is_shuffle deck_AB \<and> start_game lobby_AB deck_AB = Inr started_AB
   \<and> conserved started_AB \<and> seated started_AB \<and> length (all_hands started_AB) = 52
   \<and> play_card started_AB ''A'' (card_to_dict ace_of_spades) = Inr (after_ace_AB, True, None)
   \<and> conserved after_ace_AB \<and> seated after_ace_AB
   \<and> take_hand_from_left started_AB ''A''
       = Inr (taken_AB, True, ''Took 26 cards from B'', Some ''B'')
   \<and> conserved taken_AB \<and> seated taken_AB"
proof -
  have h1: "lobby lobby_AB" by code_simp
  have h2: "is_shuffle deck_AB" by code_simp
  from cards_conserved [of lobby_AB deck_AB started_AB] h1 h2 start_game_AB
  have a: "conserved started_AB \<and> seated started_AB \<and> length (all_hands started_AB) = 52"
    by simp
  from cards_conserved [of _ _ _ started_AB "''A''" "card_to_dict ace_of_spades" after_ace_AB None]
    a play_ace_AB
  have b: "conserved after_ace_AB \<and> seated after_ace_AB" by simp
  from cards_conserved [of _ _ _ started_AB _ _ _ _ "''A''" taken_AB "''Took 26 cards from B''"
      "Some ''B''"] a take_AB
  have c: "conserved taken_AB \<and> seated taken_AB" by simp
  from h1 h2 start_game_AB a play_ace_AB b take_AB c show ?thesis by simp
qed

section \<open>The opening round of a two-player game\<close>

lemma card_of_dict_to_dict [simp]: "card_of_dict (card_to_dict c) = Inr c"
proof (cases c)
  case (Card s r)
  have "suit_of_value (suit_value s) = Inr s"
    by (cases s) (simp_all add: suit_of_value_def all_suits_def)
  moreover have "rank_of_value (rank_value r) = Inr r"
    by (cases r) (simp_all add: rank_of_value_def all_ranks_def)
  ultimately show ?thesis
    by (simp add: Card card_of_dict_def card_to_dict_def dict_get_def)
qed

lemma lead_ace:
  assumes "game_started s" and "\<not> finished s" and "active_players s = [A, B]" and "A \<noteq> B"
    and "current_player s = Inr A" and "current_pile s = []"
    and "get_hand (players s) A = Inr hA" and "ace_of_spades \<in> set hA"
  shows "\<exists>s1. play_card s A (card_to_dict ace_of_spades) = Inr (s1, True, None)
      \<and> game_started s1 \<and> \<not> finished s1 \<and> active_players s1 = [A, B]
      \<and> current_player s1 = Inr B
      \<and> current_pile s1 = [(A, ace_of_spades)]
      \<and> current_suit s1 = Some SPADES \<and> original_suit s1 = Some SPADES
      \<and> game_first_card_played s1
      \<and> players s1 = AList.update A (remove1 ace_of_spades hA) (players s)"
proof -
  define t0 where "t0 = (if \<not> game_first_card_played s
                         then s\<lparr>game_first_card_played := True\<rparr> else s)"
  define t where "t = open_round t0 ace_of_spades"
  define u where "u = put_on_pile t A hA ace_of_spades"
  have t0: "active_players t0 = [A, B]" "current_pile t0 = []" "players t0 = players s"
    "current_player_idx t0 = current_player_idx s" "game_started t0" "\<not> finished t0"
    "game_first_card_played t0" "player_order t0 = player_order s"
    using assms by (simp_all add: t0_def)
  have t: "active_players t = [A, B]" "current_pile t = []" "players t = players s"
    "current_player_idx t = current_player_idx s" "game_started t" "\<not> finished t"
    "game_first_card_played t" "current_suit t = Some SPADES" "original_suit t = Some SPADES"
    using t0 by (simp_all add: t_def open_round_def ace_of_spades_def)
  have u: "active_players u = [A, B]" "current_pile u = [(A, ace_of_spades)]"
    "players u = AList.update A (remove1 ace_of_spades hA) (players s)"
    "current_player_idx u = current_player_idx s" "game_started u" "\<not> finished u"
    "game_first_card_played u" "current_suit u = Some SPADES" "original_suit u = Some SPADES"
    using t by (simp_all add: u_def put_on_pile_def)
  from assms(3,5) have idx: "[A, B] ! (current_player_idx s mod Suc (Suc 0)) = A"
    by (simp add: current_player_def)
  have cpu: "current_player u = Inr A"
    using idx by (simp add: current_player_def u)
  have li: "list_index [A, B] A = Inr 0" by (simp add: list_index_def)
  have adv: "advance_to_next_active_player u = Inr (u\<lparr>current_player_idx := 1\<rparr>)"
    by (simp add: advance_to_next_active_player_def u cpu li)
  have fin: "finish_play u ace_of_spades = Inr (u\<lparr>current_player_idx := 1\<rparr>)"
    by (simp add: finish_play_def u adv ace_of_spades_def)
  have "play_card s A (card_to_dict ace_of_spades) = Inr (u\<lparr>current_player_idx := 1\<rparr>, True, None)"
    using assms fin t(8)
    by (simp add: play_card_def commit_play_def Let_def t0_def [symmetric] t_def [symmetric]
        u_def [symmetric] ace_of_spades_def [symmetric])
       (auto simp: ace_of_spades_def)
  moreover have "current_player (u\<lparr>current_player_idx := 1\<rparr>) = Inr B"
    by (simp add: current_player_def u)
  ultimately show ?thesis using u by simp
qed

lemma break_suit:
  assumes "game_started s" and "\<not> finished s" and "active_players s = [A, B]" and "A \<noteq> B"
    and "current_player s = Inr B" and "current_pile s = [(A, a)]" and "suit a = SPADES"
    and "current_suit s = Some SPADES" and "original_suit s = Some SPADES"
    and "game_first_card_played s"
    and "get_hand (players s) A = Inr hA" and "get_hand (players s) B = Inr hB"
    and "c \<in> set hB" and "\<forall>x \<in> set hB. suit x \<noteq> SPADES" and "2 \<le> length hB"
  shows "\<exists>s2. play_card s B (card_to_dict c) = Inr (s2, True, None)
      \<and> suit_was_broken s2 \<and> resolved_winner s2 = Some A \<and> current_pile s2 = []
      \<and> players s2 = AList.update A (sort_hand (hA @ [a, c]))
                        (AList.update B (remove1 c hB) (players s))
      \<and> current_player s2 = Inr A \<and> active_players s2 = [A, B] \<and> \<not> finished s2
      \<and> discarded_cards s2 = discarded_cards s \<and> winners s2 = winners s"
proof -
  from assms(13,14) have cs: "suit c \<noteq> SPADES" by blast
  define u where "u = put_on_pile s B hB c"
  have u: "active_players u = [A, B]" "current_pile u = [(A, a), (B, c)]"
    "players u = AList.update B (remove1 c hB) (players s)"
    "original_suit u = Some SPADES" "finished u = finished s"
    "discarded_cards u = discarded_cards s" "winners u = winners s"
    using assms by (simp_all add: u_def put_on_pile_def)
  have mx: "py_max_key (\<lambda>x. card_value (snd x))
              (filter (\<lambda>(pname, pcard). Some (suit pcard) = original_suit u) (current_pile u))
            = Inr (A, a)"
    using assms(7) cs by (simp add: u py_max_key_def)
  define v where "v = u\<lparr>resolved_pile := current_pile u, resolved_winner := Some A,
                         suit_was_broken := True\<rparr>"
  from assms(4,11) have ha: "get_hand (players v) A = Inr hA"
    by (simp add: v_def u get_hand_eq_Inr update_conv')
  define w where "w = v\<lparr>players := AList.update A (sort_hand (hA @ map snd (current_pile v)))
                                      (players v),
                         last_action := Some (A @ '' picks up the pile!'')\<rparr>"
  have cp: "collect_pile v A True = Inr w"
    by (simp add: collect_pile_def ha w_def)
  define x where "x = w\<lparr>current_pile := [], current_suit := None,
                         original_suit := None, round_in_progress := False\<rparr>"
  have x: "active_players x = [A, B]" "current_pile x = []"
    "players x = AList.update A (sort_hand (hA @ [a, c]))
                   (AList.update B (remove1 c hB) (players s))"
    "suit_was_broken x" "resolved_winner x = Some A" "finished x = finished s"
    "discarded_cards x = discarded_cards s" "winners x = winners s"
    by (simp_all add: x_def w_def v_def u)
  have gA: "get_hand (players x) A = Inr (sort_hand (hA @ [a, c]))"
    by (simp add: x get_hand_eq_Inr update_conv')
  from assms(4) have gB: "get_hand (players x) B = Inr (remove1 c hB)"
    by (simp add: x get_hand_eq_Inr update_conv')
  from assms(13,15) have "length (remove1 c hB) \<noteq> 0"
    by (simp add: length_remove1)
  then have lB: "remove1 c hB \<noteq> []" by simp
  have lA: "sort_hand (hA @ [a, c]) \<noteq> []"
  proof
    assume "sort_hand (hA @ [a, c]) = []"
    then have "length (sort_hand (hA @ [a, c])) = 0" by (simp only: list.size(3))
    then show False by simp
  qed
  have cw: "check_for_winners x = Inr x"
    using gA gB lA lB by (simp add: check_for_winners_def x(1))
  have li: "list_index [A, B] A = Inr 0" by (simp add: list_index_def)
  have nl: "set_next_leader x A = Inr (x\<lparr>current_player_idx := 0\<rparr>)"
    by (simp add: set_next_leader_def x(1) li)
  have pw: "players_with_cards (players x) [A, B] = Inr [A, B]"
    using gA gB lA lB by simp
  have go: "check_game_over (x\<lparr>current_player_idx := 0\<rparr>) = Inr (x\<lparr>current_player_idx := 0\<rparr>)"
    using pw by (simp add: check_game_over_def x(1))
  have ne: "current_pile u \<noteq> []" by (simp add: u)
  have rr: "resolve_round u True = Inr (x\<lparr>current_player_idx := 0\<rparr>)"
    by (simp only: resolve_round_def Let_def ne if_False mx ebind_Inr fst_conv
        v_def [symmetric] cp x_def [symmetric] cw nl go)
  have fin: "finish_play u c = Inr (x\<lparr>current_player_idx := 0\<rparr>)"
    using cs rr by (simp add: finish_play_def u)
  have op: "open_round s c = s" using assms(6) by (simp add: open_round_def)
  have "play_card s B (card_to_dict c) = Inr (x\<lparr>current_player_idx := 0\<rparr>, True, None)"
    using assms fin
    by (simp add: play_card_def commit_play_def Let_def op u_def [symmetric])
  moreover have "current_player (x\<lparr>current_player_idx := 0\<rparr>) = Inr A"
    by (simp add: current_player_def x)
  ultimately show ?thesis using x assms(2) by simp
qed

text \<open>
  Claim C1, as amended. Two active players \<open>A\<close> and \<open>B\<close>, \<open>A\<close> to play on an empty
  pile, holding 26 cards with the Ace of Spades; \<open>B\<close> holding 26 cards, none a spade.
  Then \<open>A\<close> can play the Ace of Spades, which opens a round of spades, and \<open>B\<close> can
  answer with any card \<open>c\<close> of its hand; the round is resolved at once with
  \<open>suit_was_broken\<close>; \<open>A\<close> takes both cards of the pile, so that its hand has 27
  cards (the 25 it kept, the Ace and \<open>c\<close>); \<open>B\<close> has 25; the pile is empty and \<open>A\<close> is
  the current player.
\<close>

theorem ace_lead_then_break:
  assumes "game_started s" and "\<not> finished s" and "active_players s = [A, B]" and "A \<noteq> B"
    and "current_player s = Inr A" and "current_pile s = []"
    and "get_hand (players s) A = Inr hA" and "ace_of_spades \<in> set hA" and "length hA = 26"
    and "get_hand (players s) B = Inr hB" and "length hB = 26"
    and "c \<in> set hB" and "\<forall>x \<in> set hB. suit x \<noteq> SPADES"
  shows "\<exists>s1 s2. play_card s A (card_to_dict ace_of_spades) = Inr (s1, True, None)
      \<and> original_suit s1 = Some SPADES
      \<and> play_card s1 B (card_to_dict c) = Inr (s2, True, None)
      \<and> suit_was_broken s2 \<and> resolved_winner s2 = Some A \<and> current_pile s2 = []
      \<and> hand_of s2 A = sort_hand (remove1 ace_of_spades hA @ [ace_of_spades, c])
      \<and> length (hand_of s2 A) = 27 \<and> length (hand_of s2 B) = 25
      \<and> current_player s2 = Inr A"
proof -
  from lead_ace [OF assms(1-8)] obtain s1 where
    p1: "play_card s A (card_to_dict ace_of_spades) = Inr (s1, True, None)"
    and f1: "game_started s1" "\<not> finished s1" "active_players s1 = [A, B]"
      "current_player s1 = Inr B" "current_pile s1 = [(A, ace_of_spades)]"
      "current_suit s1 = Some SPADES" "original_suit s1 = Some SPADES"
      "game_first_card_played s1"
      "players s1 = AList.update A (remove1 ace_of_spades hA) (players s)"
    by blast
  have gA: "get_hand (players s1) A = Inr (remove1 ace_of_spades hA)"
    by (simp add: f1(9) get_hand_eq_Inr update_conv')
  from assms(4,10) have gB: "get_hand (players s1) B = Inr hB"
    by (simp add: f1(9) get_hand_eq_Inr update_conv')
  have sa: "suit ace_of_spades = SPADES" by (simp add: ace_of_spades_def)
  from assms(11) have l2: "2 \<le> length hB" by simp
  from break_suit [OF f1(1,2,3) assms(4) f1(4,5) sa f1(6,7,8) gA gB assms(12,13) l2]
  obtain s2 where p2: "play_card s1 B (card_to_dict c) = Inr (s2, True, None)"
    and f2: "suit_was_broken s2" "resolved_winner s2 = Some A" "current_pile s2 = []"
      "players s2 = AList.update A (sort_hand (remove1 ace_of_spades hA @ [ace_of_spades, c]))
                        (AList.update B (remove1 c hB) (players s1))"
      "current_player s2 = Inr A"
    by blast
  have hA2: "hand_of s2 A = sort_hand (remove1 ace_of_spades hA @ [ace_of_spades, c])"
    by (simp add: hand_of_def f2(4) update_conv')
  from assms(4) have hB2: "hand_of s2 B = remove1 c hB"
    by (simp add: hand_of_def f2(4) update_conv')
  from assms(8,9) hA2 have lA: "length (hand_of s2 A) = 27" by (simp add: length_remove1)
  from assms(11,12) hB2 have lB: "length (hand_of s2 B) = 25" by (simp add: length_remove1)
  from p1 f1(7) p2 f2(1,2,3,5) hA2 lA lB show ?thesis by blast
qed

theorem ace_lead_then_break_witness:
  "game_started started_AB \<and> \<not> finished started_AB \<and> active_players started_AB = [''A'', ''B'']
   \<and> current_player started_AB = Inr ''A'' \<and> current_pile started_AB = []
   \<and> ace_of_spades \<in> set (hand_of started_AB ''A'') \<and> length (hand_of started_AB ''A'') = 26
   \<and> length (hand_of started_AB ''B'') = 26 \<and> Card HEARTS TWO \<in> set (hand_of started_AB ''B'')
   \<and> SPADES \<notin> suit ` set (hand_of started_AB ''B'')
   \<and> play_card started_AB ''A'' (card_to_dict ace_of_spades) = Inr (after_ace_AB, True, None)
   \<and> play_card after_ace_AB ''B'' (card_to_dict (Card HEARTS TWO)) = Inr (after_two_AB, True, None)
   \<and> suit_was_broken after_two_AB \<and> current_pile after_two_AB = []
   \<and> length (hand_of after_two_AB ''A'') = 27 \<and> length (hand_of after_two_AB ''B'') = 25
   \<and> current_player after_two_AB = Inr ''A''"
proof -
  have h1: "game_started started_AB" by code_simp
  have h2: "\<not> finished started_AB" by code_simp
  have h3: "active_players started_AB = [''A'', ''B'']" by code_simp
  have h4: "''A'' \<noteq> ''B''" by simp
  have h5: "current_player started_AB = Inr ''A''" by code_simp
  have h6: "current_pile started_AB = []" by code_simp
  have h7: "get_hand (players started_AB) ''A'' = Inr (hand_of started_AB ''A'')" by code_simp
  have h8: "ace_of_spades \<in> set (hand_of started_AB ''A'')" by code_simp
  have h9: "length (hand_of started_AB ''A'') = 26" by code_simp
  have h10: "get_hand (players started_AB) ''B'' = Inr (hand_of started_AB ''B'')" by code_simp
  have h11: "length (hand_of started_AB ''B'') = 26" by code_simp
  have h12: "Card HEARTS TWO \<in> set (hand_of started_AB ''B'')" by code_simp
  have h13': "SPADES \<notin> suit ` set (hand_of started_AB ''B'')" by code_simp
  then have h13: "\<forall>x \<in> set (hand_of started_AB ''B''). suit x \<noteq> SPADES" by force
  from ace_lead_then_break [OF h1 h2 h3 h4 h5 h6 h7 h8 h9 h10 h11 h12 h13]
    play_ace_AB play_two_AB
  have "suit_was_broken after_two_AB \<and> current_pile after_two_AB = []
   \<and> length (hand_of after_two_AB ''A'') = 27 \<and> length (hand_of after_two_AB ''B'') = 25
   \<and> current_player after_two_AB = Inr ''A''"
    by auto
  with h1 h2 h3 h5 h6 h8 h9 h11 h12 h13' play_ace_AB play_two_AB show ?thesis by simp
qed

text \<open>
  The dealt game of the scenario: after the two plays the hand of \<open>A\<close> has 27 cards,
  not 26.
\<close>

theorem hand_count_26_counterexample:
  "start_game lobby_AB deck_AB = Inr started_AB
   \<and> ace_of_spades \<in> set (hand_of started_AB ''A'') \<and> length (hand_of started_AB ''A'') = 26
   \<and> length (hand_of started_AB ''B'') = 26
   \<and> SPADES \<notin> suit ` set (hand_of started_AB ''B'')
   \<and> play_card started_AB ''A'' (card_to_dict ace_of_spades) = Inr (after_ace_AB, True, None)
   \<and> original_suit after_ace_AB = Some SPADES
   \<and> play_card after_ace_AB ''B'' (card_to_dict (Card HEARTS TWO)) = Inr (after_two_AB, True, None)
   \<and> suit_was_broken after_two_AB
   \<and> length (hand_of after_two_AB ''B'') = 25
   \<and> current_player after_two_AB = Inr ''A''
   \<and> length (hand_of after_two_AB ''A'') = 27
   \<and> length (hand_of after_two_AB ''A'') \<noteq> 26"
proof -
  have "ace_of_spades \<in> set (hand_of started_AB ''A'')" by code_simp
  moreover have "length (hand_of started_AB ''A'') = 26" by code_simp
  moreover have "length (hand_of started_AB ''B'') = 26" by code_simp
  moreover have "SPADES \<notin> suit ` set (hand_of started_AB ''B'')" by code_simp
  moreover have "original_suit after_ace_AB = Some SPADES" by code_simp
  moreover have "suit_was_broken after_two_AB" by code_simp
  moreover have "length (hand_of after_two_AB ''B'') = 25" by code_simp
  moreover have "current_player after_two_AB = Inr ''A''" by code_simp
  moreover have "length (hand_of after_two_AB ''A'') = 27" by code_simp
  ultimately show ?thesis using start_game_AB play_ace_AB play_two_AB by simp
qed

section \<open>Winners stay out of the game\<close>

lemma winners_retiredI:
  assumes "\<And>w. w \<in> set (winners s) \<Longrightarrow> w \<notin> set (active_players s) \<and> hand_of s w = []"
    and "fst ` set (current_pile s) \<subseteq> set (active_players s)"
    and "current_pile s \<noteq> [] \<Longrightarrow> round_in_progress s"
    and "distinct (active_players s)"
  shows "winners_retired s"
  using assms by (simp add: winners_retired_def)

lemma winners_retiredD:
  assumes "winners_retired s"
  shows "\<And>w. w \<in> set (winners s) \<Longrightarrow> w \<notin> set (active_players s)"
    and "\<And>w. w \<in> set (winners s) \<Longrightarrow> hand_of s w = []"
    and "fst ` set (current_pile s) \<subseteq> set (active_players s)"
    and "current_pile s \<noteq> [] \<Longrightarrow> round_in_progress s"
    and "distinct (active_players s)"
  using assms by (simp_all add: winners_retired_def)

lemma winners_retired_cong:
  assumes "winners_retired s" and "winners s' = winners s"
    and "active_players s' = active_players s" and "players s' = players s"
    and "current_pile s' = current_pile s" and "round_in_progress s' = round_in_progress s"
  shows "winners_retired s'"
  using assms by (simp add: winners_retired_def hand_of_def)

lemma check_for_winners_loop_retired:
  assumes "check_for_winners_loop ps s = Inr s'"
    and "\<forall>w \<in> set (winners s). w \<notin> set (active_players s) \<and> hand_of s w = []"
    and "distinct (active_players s)"
  shows "(\<forall>w \<in> set (winners s'). w \<notin> set (active_players s') \<and> hand_of s' w = [])
         \<and> distinct (active_players s') \<and> (\<exists>ws. winners s' = winners s @ ws)"
  using assms
proof (induction ps arbitrary: s)
  case Nil
  then show ?case by simp
next
  case (Cons p ps)
  from Cons.prems(1) obtain h where h: "get_hand (players s) p = Inr h" and
    r: "(if length h = 0 \<and> p \<notin> set (winners s)
         then check_for_winners_loop ps
                (s\<lparr>winners := winners s @ [p],
                   active_players := remove1 p (active_players s)\<rparr>)
         else check_for_winners_loop ps s) = Inr s'"
    by (auto simp: ebind_eq_Inr)
  show ?case
  proof (cases "length h = 0 \<and> p \<notin> set (winners s)")
    case True
    let ?t = "s\<lparr>winners := winners s @ [p], active_players := remove1 p (active_players s)\<rparr>"
    from True r have l: "check_for_winners_loop ps ?t = Inr s'" by (simp split: if_splits)
    from True hand_of_get [OF h] have hp: "hand_of s p = []" by simp
    have a: "\<forall>w \<in> set (winners ?t). w \<notin> set (active_players ?t) \<and> hand_of ?t w = []"
    proof
      fix w assume "w \<in> set (winners ?t)"
      then consider "w \<in> set (winners s)" | "w = p" by auto
      then show "w \<notin> set (active_players ?t) \<and> hand_of ?t w = []"
      proof cases
        case 1
        with Cons.prems(2) have "w \<notin> set (active_players s)" "hand_of s w = []" by auto
        then show ?thesis by (auto simp: hand_of_def dest: notin_set_remove1)
      next
        case 2
        with Cons.prems(3) hp show ?thesis by (simp add: hand_of_def)
      qed
    qed
    from Cons.prems(3) have d: "distinct (active_players ?t)" by simp
    from Cons.IH [OF l a d] show ?thesis by auto
  next
    case False
    with r have "check_for_winners_loop ps s = Inr s'" by (simp split: if_splits)
    from Cons.IH [OF this Cons.prems(2,3)] show ?thesis .
  qed
qed

lemma resolve_round_retired:
  assumes "resolve_round s b = Inr s'" and "winners_retired s"
  shows "winners_retired s' \<and> (\<exists>ws. winners s' = winners s @ ws)"
proof (cases "current_pile s = []")
  case True
  with assms show ?thesis by (simp add: resolve_round_def)
next
  case False
  from resolve_round_Inr [OF assms(1) False] obtain wp :: "string \<times> card" and s2 s4 s5 where
    mx: "py_max_key (\<lambda>x. card_value (snd x))
        (filter (\<lambda>(pname, pcard). Some (suit pcard) = original_suit s) (current_pile s)) = Inr wp"
    and c2: "collect_pile (s\<lparr>resolved_pile := current_pile s, resolved_winner := Some (fst wp),
                       suit_was_broken := b\<rparr>) (fst wp) b = Inr s2"
    and c4: "check_for_winners (s2\<lparr>current_pile := [], current_suit := None,
                             original_suit := None, round_in_progress := False\<rparr>) = Inr s4"
    and c5: "set_next_leader s4 (fst wp) = Inr s5"
    and c6: "check_game_over s5 = Inr s'"
    by blast
  note inv = winners_retiredD [OF assms(2)]
  note f2 = collect_pile_fields [OF c2]
  note f4 = check_for_winners_fields [OF c4]
  note f5 = set_next_leader_fields [OF c5]
  note f6 = check_game_over_fields [OF c6]
  from py_max_key_Inr(1) [OF mx] have "wp \<in> set (current_pile s)" by simp
  with inv(3) have wa: "fst wp \<in> set (active_players s)" by auto
  let ?s3 = "s2\<lparr>current_pile := [], current_suit := None,
                 original_suit := None, round_in_progress := False\<rparr>"
  have h2: "hand_of s2 w = [] " if w: "w \<in> set (winners s)" for w
  proof -
    from inv(1) [OF w] wa have ne: "w \<noteq> fst wp" by auto
    show ?thesis
    proof (cases b)
      case True
      from collect_pile_Inr(1) [OF c2 True] ne inv(2) [OF w] show ?thesis
        by (auto simp: hand_of_def update_conv')
    next
      case False
      from collect_pile_Inr(2) [OF c2 False] inv(2) [OF w] show ?thesis
        by (simp add: hand_of_def)
    qed
  qed
  have a3: "\<forall>w \<in> set (winners ?s3). w \<notin> set (active_players ?s3) \<and> hand_of ?s3 w = []"
    using inv(1) h2 by (simp add: f2 hand_of_def)
  have d3: "distinct (active_players ?s3)" using inv(5) by (simp add: f2)
  from check_for_winners_loop_retired [OF c4 [unfolded check_for_winners_def] a3 d3]
  obtain ws where a4: "\<forall>w \<in> set (winners s4). w \<notin> set (active_players s4) \<and> hand_of s4 w = []"
    and d4: "distinct (active_players s4)" and w4: "winners s4 = winners s @ ws"
    by (auto simp: f2)
  have "winners_retired s'"
  proof (rule winners_retiredI)
    fix w assume "w \<in> set (winners s')"
    with a4 show "w \<notin> set (active_players s') \<and> hand_of s' w = []"
      by (simp add: f6 f5 hand_of_def)
  next
    show "fst ` set (current_pile s') \<subseteq> set (active_players s')" by (simp add: f6 f5 f4)
  next
    assume "current_pile s' \<noteq> []"
    then show "round_in_progress s'" by (simp add: f6 f5 f4)
  next
    from d4 show "distinct (active_players s')" by (simp add: f6 f5)
  qed
  moreover from w4 have "winners s' = winners s @ ws" by (simp add: f6 f5)
  ultimately show ?thesis by blast
qed

lemma finish_play_retired:
  assumes "finish_play s c = Inr s'" and "winners_retired s"
  shows "winners_retired s' \<and> (\<exists>ws. winners s' = winners s @ ws)"
proof -
  consider (r) b where "resolve_round s b = Inr s'"
    | (a) "advance_to_next_active_player s = Inr s'"
    using assms(1) by (auto simp: finish_play_def Let_def split: if_splits)
  then show ?thesis
  proof cases
    case r
    from resolve_round_retired [OF r assms(2)] show ?thesis .
  next
    case a
    note f = advance_fields [OF a]
    from winners_retired_cong [OF assms(2) f(3,2,1,4,7)] f(3) show ?thesis by simp
  qed
qed

lemma play_card_retired:
  assumes "play_card s p d = Inr (s', ok, m)" and "winners_retired s"
  shows "winners_retired s' \<and> (\<exists>ws. winners s' = winners s @ ws)"
proof -
  note inv = winners_retiredD [OF assms(2)]
  define t0 where "t0 = (if \<not> game_first_card_played s
                         then s\<lparr>game_first_card_played := True\<rparr> else s)"
  have t0: "winners t0 = winners s" "active_players t0 = active_players s"
    "players t0 = players s" "current_pile t0 = current_pile s"
    "round_in_progress t0 = round_in_progress s"
    by (simp_all add: t0_def)
  from play_card_cases [OF assms(1)] consider (same) "s' = s"
    | (opened) c where "s' = open_round t0 c"
    | (played) c h where "get_hand (players s) p = Inr h" "p \<in> set (active_players s)"
        "finish_play (put_on_pile (open_round t0 c) p h c) c = Inr s'"
    unfolding t0_def by blast
  then show ?thesis
  proof cases
    case same
    with assms(2) show ?thesis by simp
  next
    case opened
    have "winners_retired s'"
    proof (rule winners_retiredI)
      fix w assume "w \<in> set (winners s')"
      with inv(1,2) show "w \<notin> set (active_players s') \<and> hand_of s' w = []"
        by (simp add: opened open_round_fields t0 hand_of_def)
    next
      from inv(3) show "fst ` set (current_pile s') \<subseteq> set (active_players s')"
        by (simp add: opened open_round_fields t0)
    next
      assume "current_pile s' \<noteq> []"
      with inv(4) show "round_in_progress s'"
        by (simp add: opened open_round_fields t0)
    next
      from inv(5) show "distinct (active_players s')"
        by (simp add: opened open_round_fields t0)
    qed
    then show ?thesis by (simp add: opened open_round_fields t0)
  next
    case played
    let ?u = "put_on_pile (open_round t0 c) p h c"
    have u: "winners ?u = winners s" "active_players ?u = active_players s"
      "players ?u = AList.update p (remove1 c h) (players s)"
      "current_pile ?u = current_pile s @ [(p, c)]"
      "round_in_progress ?u = (current_pile s = [] \<or> round_in_progress s)"
      by (simp_all add: put_on_pile_fields open_round_fields t0)
    have "winners_retired ?u"
    proof (rule winners_retiredI)
      fix w assume w: "w \<in> set (winners ?u)"
      with inv(1) played(2) have "w \<noteq> p" by (auto simp: u)
      with w inv(1,2) show "w \<notin> set (active_players ?u) \<and> hand_of ?u w = []"
        by (simp add: u hand_of_def update_conv')
    next
      from inv(3) played(2) show "fst ` set (current_pile ?u) \<subseteq> set (active_players ?u)"
        by (simp add: u)
    next
      from inv(4) show "round_in_progress ?u" by (auto simp: u)
    next
      from inv(5) show "distinct (active_players ?u)" by (simp add: u)
    qed
    from finish_play_retired [OF played(3) this] show ?thesis by (simp add: u)
  qed
qed

lemma take_hand_retired:
  assumes "take_hand_from_left s p = Inr (s', ok, msg, t)" and "winners_retired s"
  shows "winners_retired s' \<and> (\<exists>ws. winners s' = winners s @ ws)"
proof (cases ok)
  case False
  with assms(1) have "s' = s" by (auto dest: take_hand_failure)
  with assms(2) show ?thesis by simp
next
  case True
  note inv = winners_retiredD [OF assms(2)]
  from assms(1) True have "take_hand_from_left s p = Inr (s', True, msg, t)" by simp
  from take_hand_success [OF this] obtain l lh s1 where
    l: "get_player_on_left s p = Some l"
    and lh: "get_hand (players s) l = Inr lh"
    and tr: "take_hand_transfer s p l lh = Inr s1" and fin: "take_hand_finish s1 p l = Inr s'"
    and rip: "round_in_progress s \<longrightarrow> current_pile s = []"
    by blast
  note lp = get_player_on_left_Some [OF l]
  from take_hand_transfer_Inr [OF tr lp(1)] obtain own where
    s1: "s1 = s\<lparr>players := AList.update p (sort_hand (own @ lh))
                          (AList.update l [] (AList.update p (own @ lh) (players s))),
            taken_hand_cards := lh, taken_hand_from := Some l, taken_hand_by := Some p,
            winners := winners s @ [l], active_players := remove1 l (active_players s)\<rparr>"
    by blast
  note ff = take_hand_finish_Inr [OF fin]
  from rip inv(4) have pile: "current_pile s = []" by blast
  have "winners_retired s'"
  proof (rule winners_retiredI)
    fix w assume "w \<in> set (winners s')"
    then consider "w \<in> set (winners s)" | "w = l" by (auto simp: ff s1)
    then show "w \<notin> set (active_players s') \<and> hand_of s' w = []"
    proof cases
      case 1
      from inv(1) [OF 1] lp have "w \<noteq> p" "w \<noteq> l" by auto
      with inv(1) [OF 1] inv(2) [OF 1] show ?thesis
        by (auto simp: ff s1 hand_of_def update_conv' dest: notin_set_remove1)
    next
      case 2
      with inv(5) lp(1) show ?thesis
        by (simp add: ff s1 hand_of_def update_conv')
    qed
  next
    from pile show "fst ` set (current_pile s') \<subseteq> set (active_players s')"
      by (simp add: ff s1)
  next
    assume "current_pile s' \<noteq> []"
    with pile show "round_in_progress s'" by (simp add: ff s1)
  next
    from inv(5) show "distinct (active_players s')" by (simp add: ff s1)
  qed
  moreover have "winners s' = winners s @ [l]" by (simp add: ff s1)
  ultimately show ?thesis by blast
qed

lemma remove_player_retired:
  assumes "remove_player s n = Inr s'" and "winners_retired s"
  shows "winners_retired s' \<and> (\<exists>ws. winners s' = winners s @ ws)"
proof -
  note inv = winners_retiredD [OF assms(2)]
  have f: "winners s' = winners s \<and> active_players s' = active_players s
      \<and> current_pile s' = current_pile s \<and> round_in_progress s' = round_in_progress s
      \<and> (players s' = players s \<or> players s' = AList.delete n (players s))"
    using assms(1)
    by (auto simp: remove_player_def Let_def ebind_eq_Inr split: if_splits)
  have h: "hand_of s' w = [] " if "hand_of s w = []" for w
    using f that by (auto simp: hand_of_def delete_conv')
  have "winners_retired s'"
  proof (rule winners_retiredI)
    fix w assume "w \<in> set (winners s')"
    with f inv(1,2) h show "w \<notin> set (active_players s') \<and> hand_of s' w = []" by simp
  next
    from f inv(3) show "fst ` set (current_pile s') \<subseteq> set (active_players s')" by simp
  next
    assume "current_pile s' \<noteq> []"
    with f inv(4) show "round_in_progress s'" by simp
  next
    from f inv(5) show "distinct (active_players s')" by simp
  qed
  with f show ?thesis by simp
qed

lemma set_list_insert: "set (list_insert i x xs) = insert x (set xs)"
proof -
  have "set (take i xs) \<union> set (drop i xs) = set xs"
    by (metis append_take_drop_id set_append)
  then show ?thesis by (auto simp: list_insert_def)
qed

lemma distinct_list_insert: "distinct xs \<Longrightarrow> x \<notin> set xs \<Longrightarrow> distinct (list_insert i x xs)"
proof -
  assume d: "distinct xs" and x: "x \<notin> set xs"
  from d have "set (take i xs) \<inter> set (drop i xs) = {}"
    by (rule set_take_disj_set_drop_if_distinct) simp
  moreover from x have "x \<notin> set (take i xs)" "x \<notin> set (drop i xs)"
    by (auto dest: in_set_takeD in_set_dropD)
  ultimately show ?thesis using d by (auto simp: list_insert_def)
qed

lemma player_reconnected_cases:
  assumes "player_reconnected s n = Inr s'"
  shows "winners s' = winners s \<and> players s' = players s
      \<and> current_pile s' = current_pile s \<and> round_in_progress s' = round_in_progress s
      \<and> (active_players s' = active_players s
          \<or> (\<exists>i h. active_players s' = list_insert i n (active_players s)
                \<and> map_of (players s) n = Some h \<and> h \<noteq> []
                \<and> n \<notin> set (active_players s)))"
  using assms
  by (auto simp: player_reconnected_def Let_def ebind_eq_Inr split: if_splits option.splits)

lemma player_reconnected_retired:
  assumes "player_reconnected s n = Inr s'" and "winners_retired s"
  shows "winners_retired s' \<and> (\<exists>ws. winners s' = winners s @ ws)"
proof -
  note inv = winners_retiredD [OF assms(2)]
  note f = player_reconnected_cases [OF assms(1)]
  from f consider (same) "active_players s' = active_players s"
    | (ins) i h where "active_players s' = list_insert i n (active_players s)"
        "map_of (players s) n = Some h" "h \<noteq> []" "n \<notin> set (active_players s)"
    by blast
  then have "winners_retired s'"
  proof cases
    case same
    from winners_retired_cong [OF assms(2) _ same] f show ?thesis by simp
  next
    case ins
    from ins(2,3) have hn: "hand_of s n \<noteq> []" by (simp add: hand_of_def)
    show ?thesis
    proof (rule winners_retiredI)
      fix w assume "w \<in> set (winners s')"
      with f have w: "w \<in> set (winners s)" by simp
      with inv(2) hn have "w \<noteq> n" by auto
      with inv(1) [OF w] inv(2) [OF w] f show "w \<notin> set (active_players s') \<and> hand_of s' w = []"
        by (simp add: ins(1) set_list_insert hand_of_def)
    next
      from inv(3) f show "fst ` set (current_pile s') \<subseteq> set (active_players s')"
        by (auto simp: ins(1) set_list_insert)
    next
      assume "current_pile s' \<noteq> []"
      with f inv(4) show "round_in_progress s'" by simp
    next
      from inv(5) ins(4) show "distinct (active_players s')"
        by (simp add: ins(1) distinct_list_insert)
    qed
  qed
  with f show ?thesis by simp
qed

lemma apply_operation_retired:
  assumes "apply_operation s x = Inr s'" and "winners_retired s"
  shows "winners_retired s' \<and> (\<exists>ws. winners s' = winners s @ ws)"
proof (cases x)
  case (Play p d)
  with assms(1) obtain ok m where "play_card s p d = Inr (s', ok, m)"
    by (auto simp: ebind_eq_Inr)
  from play_card_retired [OF this assms(2)] show ?thesis .
next
  case (TakeHand p)
  with assms(1) obtain ok msg t where "take_hand_from_left s p = Inr (s', ok, msg, t)"
    by (auto simp: ebind_eq_Inr)
  from take_hand_retired [OF this assms(2)] show ?thesis .
next
  case (Disconnect p)
  with assms(1) have "remove_player s p = Inr s'" by simp
  from remove_player_retired [OF this assms(2)] show ?thesis .
next
  case (Reconnect p)
  with assms(1) have "player_reconnected s p = Inr s'" by simp
  from player_reconnected_retired [OF this assms(2)] show ?thesis .
qed

lemma run_operations_retired:
  "run_operations s xs = Inr s' \<Longrightarrow> winners_retired s
   \<Longrightarrow> winners_retired s' \<and> (\<exists>ws. winners s' = winners s @ ws)"
proof (induction xs arbitrary: s)
  case Nil
  then show ?case by simp
next
  case (Cons x xs)
  from Cons.prems(1) obtain s1 where a: "apply_operation s x = Inr s1"
    and r: "run_operations s1 xs = Inr s'"
    by (auto simp: ebind_eq_Inr)
  from apply_operation_retired [OF a Cons.prems(2)] obtain ws1 where
    i1: "winners_retired s1" and w1: "winners s1 = winners s @ ws1" by blast
  from Cons.IH [OF r i1] obtain ws2 where "winners_retired s'" "winners s' = winners s1 @ ws2"
    by blast
  with w1 show ?case by simp
qed

lemma start_game_retired:
  assumes "lobby s" and "start_game s deck = Inr s'"
  shows "winners_retired s'"
proof -
  from start_game_Inr [OF assms(2)] obtain dealt found where
    s': "s' = s\<lparr>players := sort_all dealt, active_players := player_order s,
              current_player_idx := (case found of None \<Rightarrow> current_player_idx s | Some i \<Rightarrow> i),
              game_started := True, game_first_card_played := False,
              original_players := player_order s,
              connected_players := set (player_order s)\<rparr>"
    by blast
  from assms(1) have "distinct (player_order s)" "current_pile s = []" "winners s = []"
    by (auto simp: lobby_def seated_def)
  then show ?thesis by (simp add: winners_retired_def s')
qed

text \<open>
  Claim C7. Start a game from a lobby and run any operations of the four kinds
  (\<open>play_card\<close>, \<open>take_hand_from_left\<close>, \<open>remove_player\<close>, \<open>player_reconnected\<close>),
  all of which return; let \<open>w\<close> be a winner then. After any further run of returning
  operations \<open>w\<close> is not among the active players (nor was it before), \<open>w\<close> is still a
  winner, and the winners of before are the first winners of after, in the same
  order.
\<close>

theorem winners_never_reenter:
  assumes "lobby s0" and "start_game s0 deck = Inr s1"
    and "run_operations s1 before = Inr s" and "w \<in> set (winners s)"
    and "run_operations s after = Inr s'"
  shows "w \<notin> set (active_players s) \<and> w \<notin> set (active_players s')
         \<and> w \<in> set (winners s') \<and> take (length (winners s)) (winners s') = winners s"
proof -
  from start_game_retired [OF assms(1,2)] have "winners_retired s1" .
  from run_operations_retired [OF assms(3) this] have i: "winners_retired s" by simp
  from run_operations_retired [OF assms(5) i] obtain ws where
    i': "winners_retired s'" and w': "winners s' = winners s @ ws" by blast
  from assms(4) w' have "w \<in> set (winners s')" by simp
  with winners_retiredD(1) [OF i'] winners_retiredD(1) [OF i assms(4)] w' show ?thesis by simp
qed

theorem winners_never_reenter_witness:
  "lobby lobby_ABC \<and> start_game lobby_ABC deck_AB = Inr dealt_ABC
   \<and> run_operations dealt_ABC ops_take = Inr retired_ABC
   \<and> ''B'' \<in> set (winners retired_ABC)
   \<and> run_operations retired_ABC ops_later = Inr later_ABC
   \<and> \<not> finished later_ABC
   \<and> ''B'' \<notin> set (active_players later_ABC) \<and> ''B'' \<in> set (winners later_ABC)"
proof -
  have h1: "lobby lobby_ABC" by code_simp
  have h2: "start_game lobby_ABC deck_AB = Inr dealt_ABC" by code_simp
  have h3: "run_operations dealt_ABC ops_take = Inr retired_ABC" by code_simp
  have h4: "''B'' \<in> set (winners retired_ABC)" by code_simp
  have h5: "run_operations retired_ABC ops_later = Inr later_ABC" by code_simp
  have h6: "\<not> finished later_ABC" by code_simp
  from winners_never_reenter [OF h1 h2 h3 h4 h5] h1 h2 h3 h4 h5 h6 show ?thesis by simp
qed

section \<open>The sessions of a started game\<close>

text \<open>
  The hypotheses of the theorems above are facts of every session that a game started
  from a lobby reaches by operations that return: \<open>in_play\<close> and \<open>winners_retired\<close>
  hold after \<open>start_game\<close> and are kept by the four operations, and the session that
  \<open>play_card\<close> passes on to \<open>_resolve_round\<close> has a non-empty pile whose first card has
  the suit of the round.
\<close>

lemma in_playI:
  assumes "game_started s" and "seated s"
    and "set (active_players s) \<subseteq> set (player_order s)"
    and "current_pile s \<noteq> [] \<Longrightarrow> original_suit s = Some (suit (snd (hd (current_pile s))))"
  shows "in_play s"
  using assms by (simp add: in_play_def)

lemma in_playD:
  assumes "in_play s"
  shows "game_started s" and "seated s"
    and "set (active_players s) \<subseteq> set (player_order s)"
    and "current_pile s \<noteq> [] \<Longrightarrow> original_suit s = Some (suit (snd (hd (current_pile s))))"
  using assms by (simp_all add: in_play_def)

lemma seated_cong:
  "seated s \<Longrightarrow> map fst (players s') = map fst (players s)
   \<Longrightarrow> player_order s' = player_order s \<Longrightarrow> seated s'"
  by (simp add: seated_def)

lemma in_play_cong:
  assumes "in_play s" and "game_started s' = game_started s"
    and "map fst (players s') = map fst (players s)"
    and "player_order s' = player_order s"
    and "set (active_players s') \<subseteq> set (active_players s)"
    and "current_pile s' = []
         \<or> (current_pile s' = current_pile s \<and> original_suit s' = original_suit s)"
  shows "in_play s'"
proof (rule in_playI)
  note h = in_playD [OF assms(1)]
  from h(1) assms(2) show "game_started s'" by simp
  from h(2) assms(3,4) show "seated s'" by (rule seated_cong)
  from h(3) assms(4,5) show "set (active_players s') \<subseteq> set (player_order s')" by auto
  assume "current_pile s' \<noteq> []"
  with assms(6) h(4) show "original_suit s' = Some (suit (snd (hd (current_pile s'))))"
    by auto
qed

lemma check_game_over_started:
  assumes "check_game_over s = Inr s'"
  shows "game_started s' = game_started s" and "original_suit s' = original_suit s"
  by (subst check_game_over_frame [OF assms], simp)+

lemma set_next_leader_started:
  assumes "set_next_leader s w = Inr s'"
  shows "game_started s' = game_started s" and "original_suit s' = original_suit s"
  by (subst set_next_leader_frame [OF assms], simp)+

lemma advance_started:
  assumes "advance_to_next_active_player s = Inr s'"
  shows "game_started s' = game_started s" and "original_suit s' = original_suit s"
  by (subst advance_frame [OF assms], simp)+

lemma check_for_winners_started:
  assumes "check_for_winners s = Inr s'"
  shows "game_started s' = game_started s" and "original_suit s' = original_suit s"
  by (subst check_for_winners_loop_frame [OF assms [unfolded check_for_winners_def]], simp)+

lemma collect_pile_started:
  assumes "collect_pile s w b = Inr s2"
  shows "game_started s2 = game_started s"
  using collect_pile_Inr [OF assms] by (cases b) auto

lemma resolve_round_in_play:
  assumes "resolve_round s b = Inr s'" and "in_play s"
  shows "in_play s'"
proof (cases "current_pile s = []")
  case True
  with assms show ?thesis by (simp add: resolve_round_def)
next
  case False
  note h = in_playD [OF assms(2)]
  from resolve_round_Inr [OF assms(1) False] obtain wp :: "string \<times> card" and s2 s4 s5 where
    c2: "collect_pile (s\<lparr>resolved_pile := current_pile s, resolved_winner := Some (fst wp),
                       suit_was_broken := b\<rparr>) (fst wp) b = Inr s2"
    and c4: "check_for_winners (s2\<lparr>current_pile := [], current_suit := None,
                             original_suit := None, round_in_progress := False\<rparr>) = Inr s4"
    and c5: "set_next_leader s4 (fst wp) = Inr s5"
    and c6: "check_game_over s5 = Inr s'"
    by blast
  note f2 = collect_pile_fields [OF c2] collect_pile_started [OF c2]
  note f4 = check_for_winners_fields [OF c4] check_for_winners_started [OF c4]
  note f5 = set_next_leader_fields [OF c5] set_next_leader_started [OF c5]
  note f6 = check_game_over_fields [OF c6] check_game_over_started [OF c6]
  from h(2) have dk: "distinct (map fst (players s))" by (simp add: seated_def)
  note rc = resolve_round_cards [OF assms(1) dk]
  show ?thesis
  proof (rule in_playI)
    from h(1) show "game_started s'" by (simp add: f6 f5 f4 f2)
    from h(2) rc(2,3) show "seated s'" by (rule seated_cong)
    from check_for_winners_active [OF c4] h(3)
    show "set (active_players s') \<subseteq> set (player_order s')"
      by (simp add: f6 f5 f4 f2)
  next
    assume "current_pile s' \<noteq> []"
    then show "original_suit s' = Some (suit (snd (hd (current_pile s'))))"
      by (simp add: f6 f5 f4)
  qed
qed

lemma finish_play_in_play:
  assumes "finish_play s c = Inr s'" and "in_play s"
  shows "in_play s'"
proof -
  consider (r) b where "resolve_round s b = Inr s'"
    | (a) "advance_to_next_active_player s = Inr s'"
    using assms(1) by (auto simp: finish_play_def Let_def split: if_splits)
  then show ?thesis
  proof cases
    case r
    from resolve_round_in_play [OF r assms(2)] show ?thesis .
  next
    case a
    note f = advance_fields [OF a] advance_started [OF a]
    from assms(2) show ?thesis by (rule in_play_cong) (simp_all add: f)
  qed
qed

lemma open_round_started:
  "current_pile s \<noteq> [] \<Longrightarrow> open_round s c = s"
  "current_pile s = [] \<Longrightarrow> original_suit (open_round s c) = Some (suit c)"
  by (simp_all add: open_round_def)

lemma put_on_pile_in_play:
  assumes "in_play s" and "get_hand (players s) p = Inr h"
  shows "in_play (put_on_pile (open_round s c) p h c)"
proof (rule in_playI)
  let ?u = "put_on_pile (open_round s c) p h c"
  note i = in_playD [OF assms(1)]
  from i(1) show "game_started ?u" by (simp add: put_on_pile_def open_round_fields)
  from assms(2) have "map fst (players ?u) = map fst (players s)"
    by (simp add: put_on_pile_fields open_round_fields update_present_keys get_hand_eq_Inr)
  moreover have "player_order ?u = player_order s"
    by (simp add: put_on_pile_fields open_round_fields)
  ultimately show "seated ?u" using i(2) by (simp add: seated_def)
  from i(3) show "set (active_players ?u) \<subseteq> set (player_order ?u)"
    by (simp add: put_on_pile_fields open_round_fields)
  show "original_suit ?u = Some (suit (snd (hd (current_pile ?u))))"
  proof (cases "current_pile s = []")
    case True
    then show ?thesis
      by (simp add: put_on_pile_fields open_round_fields open_round_started)
  next
    case False
    with i(4) show ?thesis
      by (simp add: put_on_pile_fields open_round_started)
  qed
qed

lemma play_card_in_play:
  assumes "play_card s p d = Inr (s', ok, m)" and "in_play s"
  shows "in_play s'"
proof -
  define t0 where "t0 = (if \<not> game_first_card_played s
                         then s\<lparr>game_first_card_played := True\<rparr> else s)"
  from assms(2) have "in_play t0" by (rule in_play_cong) (simp_all add: t0_def)
  then have t0: "in_play t0" "players t0 = players s" by (simp_all add: t0_def)
  from play_card_cases [OF assms(1)] consider (same) "s' = s"
    | (opened) c where "s' = open_round t0 c"
    | (played) c h where "get_hand (players s) p = Inr h"
        "finish_play (put_on_pile (open_round t0 c) p h c) c = Inr s'"
    unfolding t0_def by blast
  then show ?thesis
  proof cases
    case same
    with assms(2) show ?thesis by simp
  next
    case opened
    show ?thesis
    proof (cases "current_pile t0 = []")
      case True
      from t0(1) show ?thesis
        by (rule in_play_cong) (simp_all add: opened open_round_fields True)
    next
      case False
      with t0(1) show ?thesis by (simp add: opened open_round_started)
    qed
  next
    case played
    from played(1) have "get_hand (players t0) p = Inr h" by (simp add: t0)
    from put_on_pile_in_play [OF t0(1) this] have "in_play (put_on_pile (open_round t0 c) p h c)" .
    from finish_play_in_play [OF played(2) this] show ?thesis .
  qed
qed

lemma take_hand_in_play:
  assumes "take_hand_from_left s p = Inr (s', ok, msg, t)" and "in_play s"
  shows "in_play s'"
proof (cases ok)
  case False
  with assms(1) have "s' = s" by (auto dest: take_hand_failure)
  with assms(2) show ?thesis by simp
next
  case True
  note h = in_playD [OF assms(2)]
  from assms(1) True have th: "take_hand_from_left s p = Inr (s', True, msg, t)" by simp
  from h(2) have dk: "distinct (map fst (players s))" by (simp add: seated_def)
  note tc = take_hand_cards [OF th dk]
  from take_hand_success [OF th] obtain l lh s1 where
    l: "get_player_on_left s p = Some l"
    and tr: "take_hand_transfer s p l lh = Inr s1" and fin: "take_hand_finish s1 p l = Inr s'"
    by blast
  note lp = get_player_on_left_Some [OF l]
  from take_hand_transfer_Inr [OF tr lp(1)] obtain own where
    s1: "s1 = s\<lparr>players := AList.update p (sort_hand (own @ lh))
                          (AList.update l [] (AList.update p (own @ lh) (players s))),
            taken_hand_cards := lh, taken_hand_from := Some l, taken_hand_by := Some p,
            winners := winners s @ [l], active_players := remove1 l (active_players s)\<rparr>"
    by blast
  from fin obtain sg sh where g: "check_game_over s1 = Inr sg"
    and sh: "(if p \<in> set (active_players sg)
            then ebind (list_index (active_players sg) p)
                   (\<lambda>i. Inr (sg\<lparr>current_player_idx := i\<rparr>))
            else Inr sg) = Inr sh"
    and s': "s' = sh\<lparr>resolved_pile := [], resolved_winner := None,
               last_action := Some (p @ '' took '' @ l @ [CHR 0x27] @ ''s hand!'')\<rparr>"
    by (auto simp: take_hand_finish_def ebind_eq_Inr)
  from sh have hf: "sh = sg\<lparr>current_player_idx := current_player_idx sh\<rparr>"
    by (auto simp: ebind_eq_Inr split: if_splits)
  have "game_started sh = game_started sg" "original_suit sh = original_suit sg"
    by (subst hf, simp)+
  with check_game_over_started [OF g]
  have st: "game_started s' = game_started s" "original_suit s' = original_suit s"
    by (simp_all add: s' s1)
  note ff = take_hand_finish_Inr [OF fin]
  show ?thesis
  proof (rule in_playI)
    from h(1) st show "game_started s'" by simp
    from h(2) tc(4,5) show "seated s'" by (rule seated_cong)
    from h(3) show "set (active_players s') \<subseteq> set (player_order s')"
      by (auto simp: ff s1 dest: notin_set_remove1)
  next
    assume "current_pile s' \<noteq> []"
    with h(4) st show "original_suit s' = Some (suit (snd (hd (current_pile s'))))"
      by (simp add: tc)
  qed
qed

lemma remove_player_in_play:
  assumes "remove_player s n = Inr s'" and "in_play s"
  shows "in_play s'"
proof -
  from assms(2) have "game_started s" by (simp add: in_play_def)
  with assms(1) have "game_started s' \<and> players s' = players s
      \<and> player_order s' = player_order s \<and> active_players s' = active_players s
      \<and> current_pile s' = current_pile s \<and> original_suit s' = original_suit s"
    by (auto simp: remove_player_def Let_def ebind_eq_Inr split: if_splits)
  with assms(2) \<open>game_started s\<close> show ?thesis by (intro in_play_cong [of s s']) simp_all
qed

lemma player_reconnected_in_play:
  assumes "player_reconnected s n = Inr s'" and "in_play s"
  shows "in_play s'"
proof -
  note h = in_playD [OF assms(2)]
  note f = player_reconnected_cases [OF assms(1)]
  have g: "game_started s' = game_started s \<and> player_order s' = player_order s
           \<and> original_suit s' = original_suit s"
    using assms(1)
    by (auto simp: player_reconnected_def Let_def ebind_eq_Inr split: if_splits option.splits)
  have "set (active_players s') \<subseteq> set (player_order s')"
  proof -
    from f consider (same) "active_players s' = active_players s"
      | (ins) i hn where "active_players s' = list_insert i n (active_players s)"
          "map_of (players s) n = Some hn"
      by blast
    then show ?thesis
    proof cases
      case same
      with h(3) g show ?thesis by simp
    next
      case ins
      from ins(2) have "n \<in> fst ` set (players s)"
        by (auto dest!: map_of_SomeD intro: rev_image_eqI)
      with h(2) have "n \<in> set (player_order s)" by (simp add: seated_def)
      with h(3) g show ?thesis by (simp add: ins(1) set_list_insert)
    qed
  qed
  moreover from h(2) f g have "seated s'" by (intro seated_cong [of s s']) simp_all
  moreover from h(1) g have "game_started s'" by simp
  moreover from h(4) f g
  have "current_pile s' \<noteq> [] \<Longrightarrow> original_suit s' = Some (suit (snd (hd (current_pile s'))))"
    by simp
  ultimately show ?thesis by (intro in_playI)
qed

lemma apply_operation_in_play:
  assumes "apply_operation s x = Inr s'" and "in_play s"
  shows "in_play s'"
proof (cases x)
  case (Play p d)
  with assms(1) obtain ok m where "play_card s p d = Inr (s', ok, m)"
    by (auto simp: ebind_eq_Inr)
  from play_card_in_play [OF this assms(2)] show ?thesis .
next
  case (TakeHand p)
  with assms(1) obtain ok msg t where "take_hand_from_left s p = Inr (s', ok, msg, t)"
    by (auto simp: ebind_eq_Inr)
  from take_hand_in_play [OF this assms(2)] show ?thesis .
next
  case (Disconnect p)
  with assms(1) have "remove_player s p = Inr s'" by simp
  from remove_player_in_play [OF this assms(2)] show ?thesis .
next
  case (Reconnect p)
  with assms(1) have "player_reconnected s p = Inr s'" by simp
  from player_reconnected_in_play [OF this assms(2)] show ?thesis .
qed

lemma run_operations_in_play:
  "run_operations s xs = Inr s' \<Longrightarrow> in_play s \<Longrightarrow> in_play s'"
proof (induction xs arbitrary: s)
  case Nil
  then show ?case by simp
next
  case (Cons x xs)
  from Cons.prems(1) obtain s1 where a: "apply_operation s x = Inr s1"
    and r: "run_operations s1 xs = Inr s'"
    by (auto simp: ebind_eq_Inr)
  from Cons.IH [OF r apply_operation_in_play [OF a Cons.prems(2)]] show ?case .
qed

lemma start_game_in_play:
  assumes "lobby s" and "start_game s deck = Inr s'"
  shows "in_play s'"
proof -
  from start_game_Inr [OF assms(2)] obtain dealt found where
    d: "deal (map fst (players s)) 0 deck (players s) = Inr dealt"
    and s': "s' = s\<lparr>players := sort_all dealt, active_players := player_order s,
              current_player_idx := (case found of None \<Rightarrow> current_player_idx s | Some i \<Rightarrow> i),
              game_started := True, game_first_card_played := False,
              original_players := player_order s,
              connected_players := set (player_order s)\<rparr>"
    by blast
  from assms(1) have se: "seated s" and pile: "current_pile s = []" by (auto simp: lobby_def)
  show ?thesis
  proof (rule in_playI)
    show "game_started s'" by (simp add: s')
    from se show "seated s'"
      by (rule seated_cong) (simp_all add: s' sort_all_keys deal_keys [OF d])
    show "set (active_players s') \<subseteq> set (player_order s')" by (simp add: s')
    assume "current_pile s' \<noteq> []"
    with pile show "original_suit s' = Some (suit (snd (hd (current_pile s'))))"
      by (simp add: s')
  qed
qed

lemma reachable_sessions:
  assumes "lobby s0" and "start_game s0 deck = Inr s1" and "run_operations s1 xs = Inr s"
  shows "seated s" and "distinct (active_players s)"
    and "set (active_players s) \<subseteq> set (player_order s)"
    and "fst ` set (current_pile s) \<subseteq> set (player_order s)"
    and "current_pile s \<noteq> [] \<Longrightarrow> original_suit s = Some (suit (snd (hd (current_pile s))))"
    and "current_pile s \<noteq> [] \<Longrightarrow> round_in_progress s"
proof -
  from run_operations_in_play [OF assms(3) start_game_in_play [OF assms(1,2)]]
  have i: "in_play s" .
  from run_operations_retired [OF assms(3) start_game_retired [OF assms(1,2)]]
  have r: "winners_retired s" by simp
  note h = in_playD [OF i] and w = winners_retiredD [OF r]
  show "seated s" by (rule h(2))
  show "distinct (active_players s)" by (rule w(5))
  show "set (active_players s) \<subseteq> set (player_order s)" by (rule h(3))
  from w(3) h(3) show "fst ` set (current_pile s) \<subseteq> set (player_order s)" by blast
  show "current_pile s \<noteq> [] \<Longrightarrow> original_suit s = Some (suit (snd (hd (current_pile s))))"
    by (rule h(4))
  show "current_pile s \<noteq> [] \<Longrightarrow> round_in_progress s" by (rule w(4))
qed


lemma resolve_round_call_site:
  assumes "in_play s" and "winners_retired s"
    and "get_hand (players s) p = Inr h" and "p \<in> set (active_players s)"
  shows "current_pile (put_on_pile (open_round s c) p h c) \<noteq> []"
    and "original_suit (put_on_pile (open_round s c) p h c)
         = Some (suit (snd (hd (current_pile (put_on_pile (open_round s c) p h c)))))"
    and "seated (put_on_pile (open_round s c) p h c)"
    and "set (active_players (put_on_pile (open_round s c) p h c))
         \<subseteq> set (player_order (put_on_pile (open_round s c) p h c))"
    and "fst ` set (current_pile (put_on_pile (open_round s c) p h c))
         \<subseteq> set (player_order (put_on_pile (open_round s c) p h c))"
proof -
  let ?u = "put_on_pile (open_round s c) p h c"
  note u = in_playD [OF put_on_pile_in_play [OF assms(1,3), of c]]
  show ne: "current_pile ?u \<noteq> []" by (simp add: put_on_pile_fields)
  from u(4) [OF ne] show "original_suit ?u = Some (suit (snd (hd (current_pile ?u))))" .
  show "seated ?u" by (rule u(2))
  show "set (active_players ?u) \<subseteq> set (player_order ?u)" by (rule u(3))
  from winners_retiredD(3) [OF assms(2)] assms(4) in_playD(3) [OF assms(1)]
  show "fst ` set (current_pile ?u) \<subseteq> set (player_order ?u)"
    by (auto simp: put_on_pile_fields open_round_fields)
qed

section \<open>What a run keeps\<close>

lemma check_game_over_suits:
  assumes "check_game_over s = Inr s'"
  shows "current_suit s' = current_suit s"
  by (subst check_game_over_frame [OF assms], simp)

lemma advance_suits:
  assumes "advance_to_next_active_player s = Inr s'"
  shows "current_suit s' = current_suit s"
  by (subst advance_frame [OF assms], simp)

lemma resolve_round_pile:
  assumes "resolve_round s b = Inr s'" and "current_pile s \<noteq> []"
  shows "current_pile s' = []"
proof -
  from resolve_round_Inr [OF assms] obtain wp :: "string \<times> card" and s2 s4 s5 where
    c4: "check_for_winners (s2\<lparr>current_pile := [], current_suit := None,
                             original_suit := None, round_in_progress := False\<rparr>) = Inr s4"
    and c5: "set_next_leader s4 (fst wp) = Inr s5"
    and c6: "check_game_over s5 = Inr s'"
    by blast
  show ?thesis
    by (simp add: check_game_over_fields [OF c6] set_next_leader_fields [OF c5]
        check_for_winners_fields [OF c4])
qed

lemma finish_play_suit_recorded:
  assumes "finish_play s c = Inr s'" and "current_pile s \<noteq> []" and "suit_recorded s"
  shows "suit_recorded s'"
proof -
  consider (r) b where "resolve_round s b = Inr s'"
    | (a) "advance_to_next_active_player s = Inr s'"
    using assms(1) by (auto simp: finish_play_def Let_def split: if_splits)
  then show ?thesis
  proof cases
    case r
    from resolve_round_pile [OF r assms(2)] show ?thesis by (simp add: suit_recorded_def)
  next
    case a
    from assms(3) show ?thesis
      by (simp add: suit_recorded_def advance_fields [OF a] advance_started [OF a]
          advance_suits [OF a])
  qed
qed

lemma play_card_suit_recorded:
  assumes "play_card s p d = Inr (s', ok, m)" and "suit_recorded s"
  shows "suit_recorded s'"
proof -
  define t0 where "t0 = (if \<not> game_first_card_played s
                         then s\<lparr>game_first_card_played := True\<rparr> else s)"
  from assms(2) have t0: "suit_recorded t0" by (simp add: t0_def suit_recorded_def)
  from play_card_cases [OF assms(1)] consider (same) "s' = s"
    | (opened) c where "s' = open_round t0 c"
    | (played) c h where "finish_play (put_on_pile (open_round t0 c) p h c) c = Inr s'"
    unfolding t0_def by blast
  then show ?thesis
  proof cases
    case same
    with assms(2) show ?thesis by simp
  next
    case opened
    with t0 show ?thesis by (simp add: suit_recorded_def open_round_def)
  next
    case played
    let ?u = "put_on_pile (open_round t0 c) p h c"
    from t0 have "suit_recorded ?u"
      by (simp add: suit_recorded_def put_on_pile_def open_round_def)
    moreover have "current_pile ?u \<noteq> []" by (simp add: put_on_pile_fields)
    ultimately show ?thesis using played by (intro finish_play_suit_recorded [of ?u c s'])
  qed
qed

lemma take_hand_finish_suits:
  assumes "take_hand_finish s1 p l = Inr s2"
  shows "current_suit s2 = current_suit s1" and "original_suit s2 = original_suit s1"
proof -
  from assms obtain sg sh where g: "check_game_over s1 = Inr sg"
    and sh: "(if p \<in> set (active_players sg)
            then ebind (list_index (active_players sg) p)
                   (\<lambda>i. Inr (sg\<lparr>current_player_idx := i\<rparr>))
            else Inr sg) = Inr sh"
    and s2: "s2 = sh\<lparr>resolved_pile := [], resolved_winner := None,
               last_action := Some (p @ '' took '' @ l @ [CHR 0x27] @ ''s hand!'')\<rparr>"
    by (auto simp: take_hand_finish_def ebind_eq_Inr)
  from sh have hf: "sh = sg\<lparr>current_player_idx := current_player_idx sh\<rparr>"
    by (auto simp: ebind_eq_Inr split: if_splits)
  have "current_suit sh = current_suit sg" "original_suit sh = original_suit sg"
    by (subst hf, simp)+
  with check_game_over_suits [OF g] check_game_over_started [OF g] s2
  show "current_suit s2 = current_suit s1" and "original_suit s2 = original_suit s1"
    by simp_all
qed

lemma take_hand_suit_recorded:
  assumes "take_hand_from_left s p = Inr (s', ok, msg, t)" and "suit_recorded s"
  shows "suit_recorded s'"
proof (cases ok)
  case False
  with assms(1) have "s' = s" by (auto dest: take_hand_failure)
  with assms(2) show ?thesis by simp
next
  case True
  from assms(1) True have th: "take_hand_from_left s p = Inr (s', True, msg, t)" by simp
  from take_hand_success [OF th] obtain l lh s1 where
    l: "get_player_on_left s p = Some l"
    and tr: "take_hand_transfer s p l lh = Inr s1" and fin: "take_hand_finish s1 p l = Inr s'"
    by blast
  note lp = get_player_on_left_Some [OF l]
  from take_hand_transfer_Inr [OF tr lp(1)] obtain own where
    s1: "s1 = s\<lparr>players := AList.update p (sort_hand (own @ lh))
                          (AList.update l [] (AList.update p (own @ lh) (players s))),
            taken_hand_cards := lh, taken_hand_from := Some l, taken_hand_by := Some p,
            winners := winners s @ [l], active_players := remove1 l (active_players s)\<rparr>"
    by blast
  note ff = take_hand_finish_Inr [OF fin] take_hand_finish_suits [OF fin]
  from assms(2) show ?thesis by (simp add: suit_recorded_def ff s1)
qed

lemma remove_player_suit_recorded:
  assumes "remove_player s n = Inr s'" and "suit_recorded s"
  shows "suit_recorded s'"
proof -
  from assms(1) have "current_pile s' = current_pile s \<and> current_suit s' = current_suit s
      \<and> original_suit s' = original_suit s"
    by (auto simp: remove_player_def Let_def ebind_eq_Inr split: if_splits)
  with assms(2) show ?thesis by (simp add: suit_recorded_def)
qed

lemma player_reconnected_suit_recorded:
  assumes "player_reconnected s n = Inr s'" and "suit_recorded s"
  shows "suit_recorded s'"
proof -
  from assms(1) have "current_pile s' = current_pile s \<and> current_suit s' = current_suit s
      \<and> original_suit s' = original_suit s"
    by (auto simp: player_reconnected_def Let_def ebind_eq_Inr split: if_splits option.splits)
  with assms(2) show ?thesis by (simp add: suit_recorded_def)
qed

lemma apply_operation_suit_recorded:
  assumes "apply_operation s x = Inr s'" and "suit_recorded s"
  shows "suit_recorded s'"
proof (cases x)
  case (Play p d)
  with assms(1) obtain ok m where "play_card s p d = Inr (s', ok, m)"
    by (auto simp: ebind_eq_Inr)
  from play_card_suit_recorded [OF this assms(2)] show ?thesis .
next
  case (TakeHand p)
  with assms(1) obtain ok msg t where "take_hand_from_left s p = Inr (s', ok, msg, t)"
    by (auto simp: ebind_eq_Inr)
  from take_hand_suit_recorded [OF this assms(2)] show ?thesis .
next
  case (Disconnect p)
  with assms(1) have "remove_player s p = Inr s'" by simp
  from remove_player_suit_recorded [OF this assms(2)] show ?thesis .
next
  case (Reconnect p)
  with assms(1) have "player_reconnected s p = Inr s'" by simp
  from player_reconnected_suit_recorded [OF this assms(2)] show ?thesis .
qed

lemma run_operations_suit_recorded:
  "run_operations s xs = Inr s' \<Longrightarrow> suit_recorded s \<Longrightarrow> suit_recorded s'"
proof (induction xs arbitrary: s)
  case Nil
  then show ?case by simp
next
  case (Cons x xs)
  from Cons.prems(1) obtain s1 where a: "apply_operation s x = Inr s1"
    and r: "run_operations s1 xs = Inr s'"
    by (auto simp: ebind_eq_Inr)
  from Cons.IH [OF r apply_operation_suit_recorded [OF a Cons.prems(2)]] show ?case .
qed

lemma start_game_suit_recorded:
  assumes "lobby s" and "start_game s deck = Inr s'"
  shows "suit_recorded s'"
proof -
  from start_game_Inr [OF assms(2)] obtain dealt found where
    s': "s' = s\<lparr>players := sort_all dealt, active_players := player_order s,
              current_player_idx := (case found of None \<Rightarrow> current_player_idx s | Some i \<Rightarrow> i),
              game_started := True, game_first_card_played := False,
              original_players := player_order s,
              connected_players := set (player_order s)\<rparr>"
    by blast
  from assms(1) have "current_pile s = []" by (simp add: lobby_def)
  then show ?thesis by (simp add: suit_recorded_def s')
qed

lemma start_game_accounted:
  assumes "start_game s deck = Inr s'"
  shows "accounted s'"
proof -
  from start_game_Inr [OF assms] obtain dealt found where
    s': "s' = s\<lparr>players := sort_all dealt, active_players := player_order s,
              current_player_idx := (case found of None \<Rightarrow> current_player_idx s | Some i \<Rightarrow> i),
              game_started := True, game_first_card_played := False,
              original_players := player_order s,
              connected_players := set (player_order s)\<rparr>"
    by blast
  show ?thesis by (simp add: accounted_def s')
qed

lemma check_for_winners_loop_union:
  "check_for_winners_loop ps s = Inr s'
   \<Longrightarrow> set (active_players s) \<union> set (winners s) \<subseteq> set (active_players s') \<union> set (winners s')"
proof (induction ps arbitrary: s)
  case Nil
  then show ?case by simp
next
  case (Cons p ps)
  from Cons.prems obtain h where "get_hand (players s) p = Inr h" and
    r: "(if length h = 0 \<and> p \<notin> set (winners s)
         then check_for_winners_loop ps
                (s\<lparr>winners := winners s @ [p],
                   active_players := remove1 p (active_players s)\<rparr>)
         else check_for_winners_loop ps s) = Inr s'"
    by (auto simp: ebind_eq_Inr)
  show ?case
  proof (cases "length h = 0 \<and> p \<notin> set (winners s)")
    case True
    with r have "check_for_winners_loop ps
                (s\<lparr>winners := winners s @ [p],
                   active_players := remove1 p (active_players s)\<rparr>) = Inr s'"
      by (simp split: if_splits)
    from Cons.IH [OF this]
    have "set (remove1 p (active_players s)) \<union> set (winners s @ [p])
          \<subseteq> set (active_players s') \<union> set (winners s')"
      by simp
    moreover have "set (active_players s) \<subseteq> set (remove1 p (active_players s)) \<union> {p}"
      by (auto dest: in_set_remove1)
    ultimately show ?thesis by auto
  next
    case False
    with r have "check_for_winners_loop ps s = Inr s'" by (simp split: if_splits)
    then show ?thesis by (rule Cons.IH)
  qed
qed

lemma resolve_round_union:
  assumes "resolve_round s b = Inr s'"
  shows "set (active_players s) \<union> set (winners s) \<subseteq> set (active_players s') \<union> set (winners s')"
proof (cases "current_pile s = []")
  case True
  with assms show ?thesis by (simp add: resolve_round_def)
next
  case False
  from resolve_round_Inr [OF assms False] obtain wp :: "string \<times> card" and s2 s4 s5 where
    c2: "collect_pile (s\<lparr>resolved_pile := current_pile s, resolved_winner := Some (fst wp),
                       suit_was_broken := b\<rparr>) (fst wp) b = Inr s2"
    and c4: "check_for_winners (s2\<lparr>current_pile := [], current_suit := None,
                             original_suit := None, round_in_progress := False\<rparr>) = Inr s4"
    and c5: "set_next_leader s4 (fst wp) = Inr s5"
    and c6: "check_game_over s5 = Inr s'"
    by blast
  note f2 = collect_pile_fields [OF c2]
  note f5 = set_next_leader_fields [OF c5]
  note f6 = check_game_over_fields [OF c6]
  from check_for_winners_loop_union [OF c4 [unfolded check_for_winners_def]]
  show ?thesis by (simp add: f6 f5 f2)
qed

lemma play_card_union:
  assumes "play_card s p d = Inr (s', ok, m)"
  shows "set (active_players s) \<union> set (winners s) \<subseteq> set (active_players s') \<union> set (winners s')"
proof -
  define t0 where "t0 = (if \<not> game_first_card_played s
                         then s\<lparr>game_first_card_played := True\<rparr> else s)"
  have t0: "active_players t0 = active_players s" "winners t0 = winners s"
    by (simp_all add: t0_def)
  from play_card_cases [OF assms(1)] consider (same) "s' = s"
    | (opened) c where "s' = open_round t0 c"
    | (played) c h where "finish_play (put_on_pile (open_round t0 c) p h c) c = Inr s'"
    unfolding t0_def by blast
  then show ?thesis
  proof cases
    case same
    then show ?thesis by simp
  next
    case opened
    then show ?thesis by (simp add: open_round_fields t0)
  next
    case played
    let ?u = "put_on_pile (open_round t0 c) p h c"
    have u: "active_players ?u = active_players s" "winners ?u = winners s"
      by (simp_all add: put_on_pile_fields open_round_fields t0)
    consider (r) b where "resolve_round ?u b = Inr s'"
      | (a) "advance_to_next_active_player ?u = Inr s'"
      using played by (auto simp: finish_play_def Let_def split: if_splits)
    then show ?thesis
    proof cases
      case r
      from resolve_round_union [OF r] show ?thesis by (simp add: u)
    next
      case a
      from advance_fields [OF a] show ?thesis by (simp add: u)
    qed
  qed
qed

lemma take_hand_union:
  assumes "take_hand_from_left s p = Inr (s', ok, msg, t)"
  shows "set (active_players s) \<union> set (winners s) \<subseteq> set (active_players s') \<union> set (winners s')"
proof (cases ok)
  case False
  with assms(1) have "s' = s" by (auto dest: take_hand_failure)
  then show ?thesis by simp
next
  case True
  from assms(1) True have th: "take_hand_from_left s p = Inr (s', True, msg, t)" by simp
  from take_hand_success [OF th] obtain l lh s1 where
    l: "get_player_on_left s p = Some l"
    and tr: "take_hand_transfer s p l lh = Inr s1" and fin: "take_hand_finish s1 p l = Inr s'"
    by blast
  note lp = get_player_on_left_Some [OF l]
  from take_hand_transfer_Inr [OF tr lp(1)] obtain own where
    s1: "s1 = s\<lparr>players := AList.update p (sort_hand (own @ lh))
                          (AList.update l [] (AList.update p (own @ lh) (players s))),
            taken_hand_cards := lh, taken_hand_from := Some l, taken_hand_by := Some p,
            winners := winners s @ [l], active_players := remove1 l (active_players s)\<rparr>"
    by blast
  note ff = take_hand_finish_Inr [OF fin]
  have "set (active_players s) \<subseteq> set (remove1 l (active_players s)) \<union> {l}"
    by (auto dest: in_set_remove1)
  then show ?thesis by (auto simp: ff s1)
qed

lemma apply_operation_kept:
  assumes "apply_operation s x = Inr s'" and "in_play s"
  shows "player_order s' = player_order s"
    and "set (active_players s) \<union> set (winners s) \<subseteq> set (active_players s') \<union> set (winners s')"
    and "mset (all_hands s') + mset (discarded_cards s') + mset (map snd (current_pile s'))
         = mset (all_hands s) + mset (discarded_cards s) + mset (map snd (current_pile s))"
proof -
  note h = in_playD [OF assms(2)]
  from h(2) have dk: "distinct (map fst (players s))" by (simp add: seated_def)
  have "player_order s' = player_order s
    \<and> set (active_players s) \<union> set (winners s) \<subseteq> set (active_players s') \<union> set (winners s')
    \<and> mset (all_hands s') + mset (discarded_cards s') + mset (map snd (current_pile s'))
         = mset (all_hands s) + mset (discarded_cards s) + mset (map snd (current_pile s))"
  proof (cases x)
    case (Play p d)
    with assms(1) obtain ok m where pc: "play_card s p d = Inr (s', ok, m)"
      by (auto simp: ebind_eq_Inr)
    from play_card_cards [OF pc dk] play_card_union [OF pc] show ?thesis by simp
  next
    case (TakeHand p)
    with assms(1) obtain ok msg t where th: "take_hand_from_left s p = Inr (s', ok, msg, t)"
      by (auto simp: ebind_eq_Inr)
    show ?thesis
    proof (cases ok)
      case False
      with th have "s' = s" by (auto dest: take_hand_failure)
      then show ?thesis by simp
    next
      case True
      with th have "take_hand_from_left s p = Inr (s', True, msg, t)" by simp
      from take_hand_cards [OF this dk] take_hand_union [OF th] show ?thesis by simp
    qed
  next
    case (Disconnect p)
    with assms(1) have "remove_player s p = Inr s'" by simp
    with h(1) have "players s' = players s \<and> player_order s' = player_order s
        \<and> active_players s' = active_players s \<and> winners s' = winners s
        \<and> current_pile s' = current_pile s \<and> discarded_cards s' = discarded_cards s"
      by (auto simp: remove_player_def Let_def ebind_eq_Inr split: if_splits)
    then show ?thesis by (simp add: all_hands_def)
  next
    case (Reconnect p)
    with assms(1) have r: "player_reconnected s p = Inr s'" by simp
    then have "player_order s' = player_order s \<and> discarded_cards s' = discarded_cards s"
      by (auto simp: player_reconnected_def Let_def ebind_eq_Inr split: if_splits option.splits)
    moreover from player_reconnected_cases [OF r]
    have "players s' = players s" "winners s' = winners s" "current_pile s' = current_pile s"
      "set (active_players s) \<subseteq> set (active_players s')"
      by (auto simp: set_list_insert)
    ultimately show ?thesis by (auto simp: all_hands_def)
  qed
  then show "player_order s' = player_order s"
    and "set (active_players s) \<union> set (winners s) \<subseteq> set (active_players s') \<union> set (winners s')"
    and "mset (all_hands s') + mset (discarded_cards s') + mset (map snd (current_pile s'))
         = mset (all_hands s) + mset (discarded_cards s) + mset (map snd (current_pile s))"
    by simp_all
qed

lemma run_operations_kept:
  "run_operations s xs = Inr s' \<Longrightarrow> in_play s
   \<Longrightarrow> (accounted s \<longrightarrow> accounted s') \<and> (conserved s \<longrightarrow> conserved s')"
proof (induction xs arbitrary: s)
  case Nil
  then show ?case by simp
next
  case (Cons x xs)
  from Cons.prems(1) obtain s1 where a: "apply_operation s x = Inr s1"
    and r: "run_operations s1 xs = Inr s'"
    by (auto simp: ebind_eq_Inr)
  note k = apply_operation_kept [OF a Cons.prems(2)]
  from k(1,2) have "accounted s \<longrightarrow> accounted s1" by (auto simp: accounted_def)
  moreover from k(3) have "conserved s \<longrightarrow> conserved s1" by (simp add: conserved_def)
  moreover note Cons.IH [OF r apply_operation_in_play [OF a Cons.prems(2)]]
  ultimately show ?case by blast
qed

lemma reachable_hands:
  assumes "lobby s0" and "start_game s0 deck = Inr s1" and "run_operations s1 xs = Inr s"
  shows "suit_recorded s" and "accounted s"
    and "\<forall>(q, h) \<in> set (players s). q \<notin> set (active_players s) \<longrightarrow> h = []"
    and "is_shuffle deck \<Longrightarrow> conserved s"
proof -
  note i1 = start_game_in_play [OF assms(1,2)]
  from run_operations_suit_recorded [OF assms(3) start_game_suit_recorded [OF assms(1,2)]]
  show "suit_recorded s" .
  from run_operations_kept [OF assms(3) i1] start_game_accounted [OF assms(2)]
  show ac: "accounted s" by simp
  from run_operations_in_play [OF assms(3) i1] have se: "seated s" by (simp add: in_play_def)
  from run_operations_retired [OF assms(3) start_game_retired [OF assms(1,2)]]
  have wr: "winners_retired s" by simp
  show "\<forall>(q, h) \<in> set (players s). q \<notin> set (active_players s) \<longrightarrow> h = []"
  proof (clarify)
    fix q h assume m: "(q, h) \<in> set (players s)" and na: "q \<notin> set (active_players s)"
    from m se have "q \<in> set (player_order s)" by (force simp: seated_def)
    with ac na have "q \<in> set (winners s)" by (auto simp: accounted_def)
    from winners_retiredD(2) [OF wr this] have "hand_of s q = []" .
    moreover from m se have "map_of (players s) q = Some h" by (simp add: seated_def)
    ultimately show "h = []" by (simp add: hand_of_def)
  qed
  show "conserved s" if "is_shuffle deck"
  proof -
    from start_game_deals_deck [OF assms(1) that assms(2)] have "conserved s1"
      by (simp add: conserved_def)
    with run_operations_kept [OF assms(3) i1] show ?thesis by simp
  qed
qed

text \<open>
  Claim C6. In a game started from a lobby and carried on by operations that return,
  let \<open>play_card\<close> succeed on a session whose pile already holds a card. The suit
  recorded for the round, in \<open>current_suit\<close> and in \<open>original_suit\<close>, is the suit of the
  card that opened the round, the first of the pile; and either no card of the acting
  player's hand has that suit, or the played card has it.
\<close>

theorem suit_following:
  assumes "lobby s0" and "start_game s0 deck = Inr s1" and "run_operations s1 xs = Inr s"
    and "play_card s p d = Inr (s', True, m)" and "current_pile s \<noteq> []"
    and "card_of_dict d = Inr c"
  shows "current_suit s = Some (suit (snd (hd (current_pile s))))
       \<and> original_suit s = Some (suit (snd (hd (current_pile s))))
       \<and> (\<not> (\<exists>c' \<in> set (hand_of s p). suit c' = suit (snd (hd (current_pile s))))
          \<or> suit c = suit (snd (hd (current_pile s))))"
proof -
  from reachable_sessions(5) [OF assms(1,2,3) assms(5)]
  have os: "original_suit s = Some (suit (snd (hd (current_pile s))))" .
  from reachable_hands(1) [OF assms(1,2,3)] assms(5) have "current_suit s = original_suit s"
    by (simp add: suit_recorded_def)
  with os have cs: "current_suit s = Some (suit (snd (hd (current_pile s))))" by simp
  from play_card_follows_current_suit [OF assms(4,5,6)] cs os show ?thesis by auto
qed

theorem suit_following_witness:
  "lobby lobby_ABC \<and> start_game lobby_ABC deck_AB = Inr dealt_ABC
   \<and> run_operations dealt_ABC ops_lead = Inr led_ABC
   \<and> play_card led_ABC ''B'' (card_to_dict (Card SPADES QUEEN)) = Inr (followed_ABC, True, None)
   \<and> current_pile led_ABC = [(''A'', ace_of_spades)]
   \<and> card_of_dict (card_to_dict (Card SPADES QUEEN)) = Inr (Card SPADES QUEEN)
   \<and> current_suit led_ABC = Some SPADES
   \<and> SPADES \<in> suit ` set (hand_of led_ABC ''B'')
   \<and> suit (Card SPADES QUEEN) = suit (snd (hd (current_pile led_ABC)))
   \<and> Card HEARTS TWO \<in> set (hand_of led_ABC ''B'')
   \<and> play_card led_ABC ''B'' (card_to_dict (Card HEARTS TWO))
       = Inr (led_ABC, False, Some ''You must play a SPADES'')"
proof -
  have h1: "lobby lobby_ABC" by code_simp
  have h2: "start_game lobby_ABC deck_AB = Inr dealt_ABC" by code_simp
  have h3: "run_operations dealt_ABC ops_lead = Inr led_ABC" by code_simp
  have h4: "play_card led_ABC ''B'' (card_to_dict (Card SPADES QUEEN))
              = Inr (followed_ABC, True, None)"
    by code_simp
  have h5: "current_pile led_ABC = [(''A'', ace_of_spades)]" by code_simp
  then have h5': "current_pile led_ABC \<noteq> []" by simp
  have h6: "card_of_dict (card_to_dict (Card SPADES QUEEN)) = Inr (Card SPADES QUEEN)"
    by code_simp
  have h7: "SPADES \<in> suit ` set (hand_of led_ABC ''B'')" by code_simp
  have h8: "Card HEARTS TWO \<in> set (hand_of led_ABC ''B'')" by code_simp
  have h9: "play_card led_ABC ''B'' (card_to_dict (Card HEARTS TWO))
              = Inr (led_ABC, False, Some ''You must play a SPADES'')"
    by code_simp
  from suit_following [OF h1 h2 h3 h4 h5' h6]
  have "current_suit led_ABC = Some SPADES
        \<and> suit (Card SPADES QUEEN) = suit (snd (hd (current_pile led_ABC)))"
    by (simp add: h5 ace_of_spades_def)
  with h1 h2 h3 h4 h5 h6 h7 h8 h9 show ?thesis by simp
qed

text \<open>
  Claim C10. When the session has exactly two active players, a successful
  \<open>take_hand_from_left\<close> by \<open>p\<close> ends the game: \<open>finished\<close> is set, the left neighbour
  is appended to the winners, \<open>p\<close> is the kazhutha and the only active player. In a
  game started from a lobby and carried on by operations that return, the hand of
  \<open>p\<close> is then all the cards of all hands, the pile is empty, and with the discarded
  cards that hand is the whole deck.
\<close>

theorem take_hand_two_players_ends_game:
  assumes "take_hand_from_left s p = Inr (s', True, msg, taken)"
    and "length (active_players s) = 2"
  shows "finished s' \<and> kazhutha s' = Some p
      \<and> (\<exists>l. get_player_on_left s p = Some l \<and> taken = Some l \<and> winners s' = winners s @ [l])
      \<and> active_players s' = [p]
      \<and> (lobby s0 \<and> start_game s0 deck = Inr s1 \<and> run_operations s1 xs = Inr s
          \<longrightarrow> all_hands s' = hand_of s' p \<and> current_pile s' = []
              \<and> mset (hand_of s' p) = mset (all_hands s)
              \<and> (is_shuffle deck
                  \<longrightarrow> mset (hand_of s' p) + mset (discarded_cards s') = mset ordered_deck))"
proof -
  note t = take_hand_two_players [OF assms]
  have "all_hands s' = hand_of s' p \<and> current_pile s' = []
        \<and> mset (hand_of s' p) = mset (all_hands s)
        \<and> (is_shuffle deck
            \<longrightarrow> mset (hand_of s' p) + mset (discarded_cards s') = mset ordered_deck)"
    if r: "lobby s0 \<and> start_game s0 deck = Inr s1 \<and> run_operations s1 xs = Inr s"
  proof -
    from r have r1: "lobby s0" and r2: "start_game s0 deck = Inr s1"
      and r3: "run_operations s1 xs = Inr s"
      by simp_all
    note rs = reachable_sessions [OF r1 r2 r3] and rh = reachable_hands [OF r1 r2 r3]
    from rs(1) have dk: "distinct (map fst (players s))" by (simp add: seated_def)
    from t dk rh(3) rs(6) have a: "all_hands s' = hand_of s' p" "current_pile s' = []"
      "mset (hand_of s' p) = mset (all_hands s)"
      by blast+
    have "mset (hand_of s' p) + mset (discarded_cards s') = mset ordered_deck"
      if "is_shuffle deck"
    proof -
      from rh(4) [OF that] have "conserved s" .
      with take_hand_cards [OF assms(1) dk] a show ?thesis by (simp add: conserved_def)
    qed
    with a show ?thesis by simp
  qed
  with t show ?thesis by blast
qed

theorem take_hand_two_players_ends_game_witness:
  "lobby lobby_ABC \<and> start_game lobby_ABC deck_AB = Inr dealt_ABC
   \<and> run_operations dealt_ABC ops_take = Inr retired_ABC
   \<and> is_shuffle deck_AB
   \<and> take_hand_from_left retired_ABC ''A''
       = Inr (ended_ABC, True, ''Took 17 cards from C'', Some ''C'')
   \<and> length (active_players retired_ABC) = 2
   \<and> ''B'' \<in> set (player_order retired_ABC) \<and> ''B'' \<notin> set (active_players retired_ABC)
   \<and> finished ended_ABC \<and> kazhutha ended_ABC = Some ''A''
   \<and> winners ended_ABC = winners retired_ABC @ [''C'']
   \<and> active_players ended_ABC = [''A'']
   \<and> all_hands ended_ABC = hand_of ended_ABC ''A'' \<and> current_pile ended_ABC = []
   \<and> mset (hand_of ended_ABC ''A'') + mset (discarded_cards ended_ABC) = mset ordered_deck
   \<and> length (hand_of ended_ABC ''A'') = 52"
proof -
  have h1: "lobby lobby_ABC" by code_simp
  have h2: "start_game lobby_ABC deck_AB = Inr dealt_ABC" by code_simp
  have h3: "run_operations dealt_ABC ops_take = Inr retired_ABC" by code_simp
  have h4: "is_shuffle deck_AB" by code_simp
  have h5: "take_hand_from_left retired_ABC ''A''
              = Inr (ended_ABC, True, ''Took 17 cards from C'', Some ''C'')"
    by code_simp
  have h6: "length (active_players retired_ABC) = 2" by code_simp
  have h7: "''B'' \<in> set (player_order retired_ABC)" by code_simp
  have h8: "''B'' \<notin> set (active_players retired_ABC)" by code_simp
  have h9: "length (hand_of ended_ABC ''A'') = 52" by code_simp
  from take_hand_two_players_ends_game [OF h5 h6, of lobby_ABC deck_AB dealt_ABC ops_take]
    h1 h2 h3 h4
  have "finished ended_ABC \<and> kazhutha ended_ABC = Some ''A''
   \<and> winners ended_ABC = winners retired_ABC @ [''C'']
   \<and> active_players ended_ABC = [''A'']
   \<and> all_hands ended_ABC = hand_of ended_ABC ''A'' \<and> current_pile ended_ABC = []
   \<and> mset (hand_of ended_ABC ''A'') + mset (discarded_cards ended_ABC) = mset ordered_deck"
    by auto
  with h1 h2 h3 h4 h5 h6 h7 h8 h9 show ?thesis by simp
qed

end
